theory Spec2Isabelle
  imports Main "HOL-Library.Multiset"
begin

section \<open>Python values used by the solver\<close>

text \<open>
  The only exception the board code can raise on lists of integers is an out-of-range
  subscript. Every function of the source that subscripts a list returns
  \<open>error + 'a\<close>, with \<open>Inl IndexError\<close> for the raise.
\<close>

datatype error = IndexError

definition bind_err :: "error + 'a \<Rightarrow> ('a \<Rightarrow> error + 'b) \<Rightarrow> error + 'b" where
  "bind_err m k = (case m of Inl e \<Rightarrow> Inl e | Inr x \<Rightarrow> k x)"

text \<open>A \<open>for x in xs: body\<close> loop over a state \<open>s\<close>; a raise in the body leaves the loop.\<close>

fun for_each :: "'a list \<Rightarrow> ('a \<Rightarrow> 's \<Rightarrow> error + 's) \<Rightarrow> 's \<Rightarrow> error + 's" where
  "for_each [] body s = Inr s"
| "for_each (x # xs) body s = bind_err (body x s) (for_each xs body)"

text \<open>\<open>str(n)\<close> for a Python int: decimal digits, with a leading minus sign when negative.\<close>

definition digit_char :: "nat \<Rightarrow> char" where
  "digit_char d = char_of (48 + d)"

fun str_nat :: "nat \<Rightarrow> string" where
  "str_nat n = (if n < 10 then [digit_char n] else str_nat (n div 10) @ [digit_char (n mod 10)])"

declare str_nat.simps [simp del]

definition str :: "int \<Rightarrow> string" where
  "str v = (if v < 0 then CHR ''-'' # str_nat (nat (- v)) else str_nat (nat v))"

text \<open>\<open>' '.join(ws)\<close>.\<close>

fun join_space :: "string list \<Rightarrow> string" where
  "join_space [] = []"
| "join_space [w] = w"
| "join_space (w # v # ws) = w @ CHR '' '' # join_space (v # ws)"

section \<open>class Board\<close>

text \<open>
  A board object is fixed by the three arguments of \<open>__init__\<close>: the tile grid, the parent
  board (or None) and the action label (or None). No method of the source assigns
  \<open>tiles\<close>, \<open>parent\<close>, \<open>action\<close>, \<open>width\<close> or \<open>g\<close> after construction, and
  \<open>neighbors\<close> works on a deep copy of the grid, so \<open>width\<close> and \<open>g\<close> are the
  values \<open>__init__\<close> computed: \<open>len(tiles)\<close>, and \<open>parent.g + 1\<close> or 0. The attribute
  \<open>h\<close> is written by \<open>f\<close> and read nowhere; it is left out. The grid is a value, a list
  of rows: its rows are taken to be distinct list objects, as \<open>make_goal\<close> and
  \<open>copy.deepcopy\<close> build them (the section on the store shows that \<open>neighbors\<close> then
  computes the same children on the objects).
\<close>

datatype Board = Board (tiles: "int list list") (parent: "Board option") (action: "string option")

definition width :: "Board \<Rightarrow> nat" where
  "width b = length (tiles b)"

fun g :: "Board \<Rightarrow> int" where
  "g (Board t None a) = 0"
| "g (Board t (Some p) a) = g p + 1"

text \<open>\<open>tiles[i][j]\<close> with non-negative subscripts.\<close>

definition getitem2 :: "int list list \<Rightarrow> nat \<Rightarrow> nat \<Rightarrow> error + int" where
  "getitem2 t i j = (if i < length t \<and> j < length (t ! i) then Inr (t ! i ! j) else Inl IndexError)"

text \<open>
  \<open>tmp[i1][j1], tmp[i2][j2] = tmp[i2][j2], tmp[i1][j1]\<close> on the copy \<open>tmp\<close>: the right-hand
  side is read first, left to right, then the two cells are assigned, left to right.
\<close>

definition swap :: "int list list \<Rightarrow> nat \<Rightarrow> nat \<Rightarrow> nat \<Rightarrow> nat \<Rightarrow> error + int list list" where
  "swap tmp i1 j1 i2 j2 =
     bind_err (getitem2 tmp i2 j2) (\<lambda>a.
     bind_err (getitem2 tmp i1 j1) (\<lambda>b.
       let t1 = tmp[i1 := (tmp ! i1)[j1 := a]]
       in Inr (t1[i2 := (t1 ! i2)[j2 := b]])))"

text \<open>\<open>nbs.append(Board(tmp, self, a)) if record_parent else nbs.append(Board(tmp))\<close>\<close>

definition append_child :: "Board \<Rightarrow> bool \<Rightarrow> string \<Rightarrow> int list list \<Rightarrow> Board list \<Rightarrow> Board list" where
  "append_child self record_parent a tmp nbs =
     (if record_parent then nbs @ [Board tmp (Some self) (Some a)] else nbs @ [Board tmp None None])"

text \<open>One guarded move of the blank at \<open>(i, j)\<close>: copy, swap with \<open>(i', j')\<close>, append.\<close>

definition move_if :: "bool \<Rightarrow> Board \<Rightarrow> bool \<Rightarrow> nat \<Rightarrow> nat \<Rightarrow> nat \<Rightarrow> nat \<Rightarrow> string \<Rightarrow> Board list
    \<Rightarrow> error + Board list" where
  "move_if c self record_parent i' j' i j a nbs =
     (if c then bind_err (swap (tiles self) i' j' i j) (\<lambda>tmp. Inr (append_child self record_parent a tmp nbs))
      else Inr nbs)"

text \<open>The body of the two nested loops of \<open>neighbors\<close> at cell \<open>(i, j)\<close>.\<close>

definition visit_cell :: "Board \<Rightarrow> bool \<Rightarrow> nat \<Rightarrow> nat \<Rightarrow> Board list \<Rightarrow> error + Board list" where
  "visit_cell self record_parent i j nbs =
     bind_err (getitem2 (tiles self) i j) (\<lambda>v.
       if v = 0 then
         bind_err (move_if (int i - 1 \<ge> 0) self record_parent (i - 1) j i j ''Down'' nbs) (\<lambda>nbs.
         bind_err (move_if (i + 1 < width self) self record_parent (i + 1) j i j ''Up'' nbs) (\<lambda>nbs.
         bind_err (move_if (int j - 1 \<ge> 0) self record_parent i (j - 1) i j ''Right'' nbs) (\<lambda>nbs.
                   move_if (j + 1 < width self) self record_parent i (j + 1) i j ''Left'' nbs)))
       else Inr nbs)"

definition neighbors :: "Board \<Rightarrow> bool \<Rightarrow> error + Board list" where
  "neighbors self record_parent =
     for_each [0..<width self] (\<lambda>i. for_each [0..<width self] (\<lambda>j. visit_cell self record_parent i j)) []"

text \<open>\<open>divmod(v - 1, width)\<close> is floor division, as \<open>div\<close> and \<open>mod\<close> on \<open>int\<close> are.\<close>

definition manhattan_cell :: "Board \<Rightarrow> nat \<Rightarrow> nat \<Rightarrow> int \<Rightarrow> error + int" where
  "manhattan_cell self i j distance =
     bind_err (getitem2 (tiles self) i j) (\<lambda>v.
       if v \<noteq> 0 then
         let x = (v - 1) div int (width self); y = (v - 1) mod int (width self)
         in Inr (distance + (\<bar>x - int i\<bar> + \<bar>y - int j\<bar>))
       else Inr distance)"

definition manhattan :: "Board \<Rightarrow> error + int" where
  "manhattan self =
     for_each [0..<width self] (\<lambda>i. for_each [0..<width self] (\<lambda>j. manhattan_cell self i j)) 0"

definition f :: "Board \<Rightarrow> error + int" where
  "f self = bind_err (manhattan self) (\<lambda>h. Inr (g self + h))"

text \<open>
  \<open>path\<close>: the loop \<open>while cur: path.append(cur); cur = cur.parent\<close>. A Board defines
  neither \<open>__bool__\<close> nor \<open>__len__\<close>, so it is truthy and the loop ends at None.
\<close>

fun path_loop :: "Board option \<Rightarrow> Board list \<Rightarrow> Board list" where
  "path_loop None path = path"
| "path_loop (Some (Board t p a)) path = path_loop p (path @ [Board t p a])"

definition path :: "Board \<Rightarrow> Board list" where
  "path self = rev (path_loop (Some self) [])"

text \<open>\<open>__iter__\<close> yields the rows' items in order; \<open>__repr__\<close> joins their \<open>str\<close>.\<close>

definition iter :: "Board \<Rightarrow> int list" where
  "iter self = concat (tiles self)"

definition repr :: "Board \<Rightarrow> string" where
  "repr self = join_space (map str (iter self))"

definition is_solved :: "Board \<Rightarrow> bool" where
  "is_solved self =
     (let N = (width self)\<^sup>2
      in repr self = join_space (map str (map int [1..<N])) @ '' 0'')"

text \<open>
  \<open>__lt__\<close> and \<open>__eq__\<close>: \<open>getattr(other, 'f', other)\<close> is \<open>other.f\<close> for a Board and
  \<open>other\<close> itself for an int.
\<close>

definition getattr_f :: "Board + int \<Rightarrow> error + int" where
  "getattr_f other = (case other of Inl b \<Rightarrow> f b | Inr v \<Rightarrow> Inr v)"

definition Board_lt :: "Board \<Rightarrow> Board + int \<Rightarrow> error + bool" where
  "Board_lt self other = bind_err (f self) (\<lambda>x. bind_err (getattr_f other) (\<lambda>y. Inr (x < y)))"

definition Board_eq :: "Board \<Rightarrow> Board + int \<Rightarrow> error + bool" where
  "Board_eq self other = bind_err (f self) (\<lambda>x. bind_err (getattr_f other) (\<lambda>y. Inr (x = y)))"

section \<open>make_goal\<close>

definition make_goal :: "int \<Rightarrow> int list list" where
  "make_goal s =
     (let arr = map int [1..<nat (s * s)] @ [0]
      in map (\<lambda>i. map (\<lambda>j. arr ! (i * nat s + j)) [0..<nat s]) [0..<nat s])"

section \<open>Notions used to state the properties\<close>

text \<open>
  \<open>rows_ok\<close>: every row has at least \<open>width\<close> entries, so that the scans of
  \<open>neighbors\<close> and \<open>manhattan\<close> stay in range. \<open>exchanged t p q\<close> is the grid
  \<open>t\<close> with the contents of the cells \<open>p\<close> and \<open>q\<close> exchanged, written cell by
  cell. \<open>moves_at t p\<close> lists, for a blank at \<open>p\<close>, the grids and labels of the moves
  in the order of the source: above, below, left, right, each only when in bounds.
  \<open>blanks\<close> lists the blank cells in scan order.
\<close>

definition rows_ok :: "int list list \<Rightarrow> bool" where
  "rows_ok t = (\<forall>r\<in>set t. length t \<le> length r)"

definition exchanged :: "int list list \<Rightarrow> nat \<times> nat \<Rightarrow> nat \<times> nat \<Rightarrow> int list list" where
  "exchanged t p q =
     map (\<lambda>r. map (\<lambda>c. if (r, c) = p then t ! fst q ! snd q
                       else if (r, c) = q then t ! fst p ! snd p
                       else t ! r ! c) [0..<length (t ! r)]) [0..<length t]"

definition mk_child :: "Board \<Rightarrow> bool \<Rightarrow> int list list \<times> string \<Rightarrow> Board" where
  "mk_child self record_parent m =
     (if record_parent then Board (fst m) (Some self) (Some (snd m)) else Board (fst m) None None)"

definition moves_at :: "int list list \<Rightarrow> nat \<times> nat \<Rightarrow> (int list list \<times> string) list" where
  "moves_at t p =
     (if 0 < fst p then [(exchanged t (fst p - 1, snd p) p, ''Down'')] else []) @
     (if fst p + 1 < length t then [(exchanged t (fst p + 1, snd p) p, ''Up'')] else []) @
     (if 0 < snd p then [(exchanged t (fst p, snd p - 1) p, ''Right'')] else []) @
     (if snd p + 1 < length t then [(exchanged t (fst p, snd p + 1) p, ''Left'')] else [])"

definition blanks :: "int list list \<Rightarrow> (nat \<times> nat) list" where
  "blanks t = concat (map (\<lambda>i. concat (map (\<lambda>j. if t ! i ! j = 0 then [(i, j)] else []) [0..<length t])) [0..<length t])"

definition tile_step :: "int list list \<Rightarrow> int list list \<Rightarrow> bool" where
  "tile_step t t' =
     (case neighbors (Board t None None) False of Inl e \<Rightarrow> False | Inr nbs \<Rightarrow> t' \<in> set (map tiles nbs))"

definition perm_tiles :: "int list list \<Rightarrow> bool" where
  "perm_tiles t = (mset (concat t) = mset (map int [0..<(length t)\<^sup>2]))"

text \<open>
  The boards successor generation reaches from a root, with either value of
  \<open>record_parent\<close>.
\<close>

inductive reachable :: "Board \<Rightarrow> Board \<Rightarrow> bool" for root where
  reachable_root: "reachable root root"
| reachable_child: "reachable root b \<Longrightarrow> neighbors b record_parent = Inr nbs \<Longrightarrow> c \<in> set nbs \<Longrightarrow> reachable root c"

text \<open>Lists of non-empty words without a space, on which \<open>join\<close> is injective.\<close>

definition word_list :: "string list \<Rightarrow> bool" where
  "word_list ws = (\<forall>w\<in>set ws. w \<noteq> [] \<and> CHR '' '' \<notin> set w)"

text \<open>The solved layout of width \<open>w\<close>, flattened: \<open>1, \<dots>, w\<^sup>2 - 1, 0\<close>.\<close>

definition solved_flat :: "nat \<Rightarrow> int list" where
  "solved_flat w = map int [1..<w\<^sup>2] @ [0]"

text \<open>
  A square grid: every row has \<open>width\<close> entries. \<open>manhattan_sum\<close> is the heuristic
  as the specification words it: the sum, over the non-blank tiles, of the Manhattan
  distance from the tile's cell \<open>(i, j)\<close> to the goal cell
  \<open>((v - 1) div width, (v - 1) mod width)\<close> of its value \<open>v\<close>.
\<close>

definition square :: "int list list \<Rightarrow> bool" where
  "square t = (\<forall>r\<in>set t. length r = length t)"

definition tile_distance :: "nat \<Rightarrow> nat \<Rightarrow> nat \<Rightarrow> int \<Rightarrow> int" where
  "tile_distance w i j v = \<bar>(v - 1) div int w - int i\<bar> + \<bar>(v - 1) mod int w - int j\<bar>"

definition manhattan_sum :: "Board \<Rightarrow> int" where
  "manhattan_sum b =
     (\<Sum>i<width b. \<Sum>j<width b.
        if tiles b ! i ! j \<noteq> 0 then tile_distance (width b) i j (tiles b ! i ! j) else 0)"

section \<open>heapq and PriorityQueue\<close>

text \<open>
  \<open>queue.PriorityQueue\<close> keeps its entries in a list \<open>self.queue\<close>; \<open>put\<close> is
  \<open>heapq.heappush\<close> on it, \<open>get\<close> is \<open>heapq.heappop\<close> and \<open>empty\<close> tests the length
  for zero (the queue is unbounded and used by one thread, so nothing blocks). The heap
  functions compare entries with \<open><\<close> only, that is with \<open>Board.__lt__\<close>.
\<close>

function siftdown_loop :: "Board list \<Rightarrow> Board \<Rightarrow> nat \<Rightarrow> nat \<Rightarrow> error + Board list" where
  "siftdown_loop heap newitem startpos pos =
     (if pos > startpos then
        let parentpos = (pos - 1) div 2;
            parent = heap ! parentpos
        in case Board_lt newitem (Inl parent) of
             Inl e \<Rightarrow> Inl e
           | Inr lt \<Rightarrow>
               if lt then siftdown_loop (heap[pos := parent]) newitem startpos parentpos
               else Inr (heap[pos := newitem])
      else Inr (heap[pos := newitem]))"
  by pat_completeness auto
termination
  by (relation "measure (\<lambda>(heap, newitem, startpos, pos). pos)") auto

declare siftdown_loop.simps [simp del]

definition siftdown :: "Board list \<Rightarrow> nat \<Rightarrow> nat \<Rightarrow> error + Board list" where
  "siftdown heap startpos pos =
     (if pos < length heap then siftdown_loop heap (heap ! pos) startpos pos else Inl IndexError)"

text \<open>The choice of the smaller child in \<open>_siftup\<close>; \<open>childpos < endpos\<close> holds.\<close>

definition smaller_child :: "Board list \<Rightarrow> nat \<Rightarrow> nat \<Rightarrow> error + nat" where
  "smaller_child heap endpos childpos =
     (let rightpos = childpos + 1
      in if rightpos < endpos then
           bind_err (Board_lt (heap ! childpos) (Inl (heap ! rightpos))) (\<lambda>lt.
             Inr (if \<not> lt then rightpos else childpos))
         else Inr childpos)"

function siftup_loop :: "Board list \<Rightarrow> nat \<Rightarrow> nat \<Rightarrow> error + (Board list \<times> nat)" where
  "siftup_loop heap endpos pos =
     (let childpos = 2 * pos + 1
      in if childpos < endpos then
           case smaller_child heap endpos childpos of
             Inl e \<Rightarrow> Inl e
           | Inr childpos \<Rightarrow> siftup_loop (heap[pos := heap ! childpos]) endpos childpos
         else Inr (heap, pos))"
  by pat_completeness auto
termination
  by (relation "measure (\<lambda>(heap, endpos, pos). endpos - pos)")
     (auto simp: smaller_child_def bind_err_def Let_def split: if_splits sum.splits)

declare siftup_loop.simps [simp del]

definition siftup :: "Board list \<Rightarrow> nat \<Rightarrow> error + Board list" where
  "siftup heap pos =
     (if pos < length heap then
        let endpos = length heap; startpos = pos; newitem = heap ! pos
        in bind_err (siftup_loop heap endpos pos) (\<lambda>(heap, pos).
             siftdown (heap[pos := newitem]) startpos pos)
      else Inl IndexError)"

definition heappush :: "Board list \<Rightarrow> Board \<Rightarrow> error + Board list" where
  "heappush heap item = (let heap = heap @ [item] in siftdown heap 0 (length heap - 1))"

definition heappop :: "Board list \<Rightarrow> error + (Board \<times> Board list)" where
  "heappop heap =
     (if heap = [] then Inl IndexError
      else let lastelt = last heap; heap = butlast heap
           in if heap \<noteq> [] then
                let returnitem = heap ! 0
                in bind_err (siftup (heap[0 := lastelt]) 0) (\<lambda>heap. Inr (returnitem, heap))
              else Inr (lastelt, heap))"

section \<open>class Solver\<close>

text \<open>What \<open>solve\<close> hands back: the path, or None when the loop ends without a return.\<close>

datatype result = Returned "Board list" | Returned_None

text \<open>The body of \<open>for nb in node.neighbors(record_parent=True)\<close>.\<close>

definition put_unseen :: "Board \<Rightarrow> Board list \<times> string set \<Rightarrow> error + Board list \<times> string set" where
  "put_unseen nb s =
     (case s of (q, seen) \<Rightarrow>
        if repr nb \<notin> seen then bind_err (heappush q nb) (\<lambda>q. Inr (q, insert (repr nb) seen))
        else Inr (q, seen))"

text \<open>
  The \<open>while not q.empty()\<close> loop. The result is None of the option type when the
  loop does not end.
\<close>

partial_function (option) solve_loop :: "Board list \<Rightarrow> string set \<Rightarrow> (error + result) option" where
  "solve_loop q seen =
     (if q = [] then Some (Inr Returned_None)
      else case heappop q of
             Inl e \<Rightarrow> Some (Inl e)
           | Inr (node, q) \<Rightarrow>
               if is_solved node then Some (Inr (Returned (path node)))
               else case neighbors node True of
                      Inl e \<Rightarrow> Some (Inl e)
                    | Inr nbs \<Rightarrow>
                        (case for_each nbs put_unseen (q, seen) of
                           Inl e \<Rightarrow> Some (Inl e)
                         | Inr (q, seen) \<Rightarrow> solve_loop q seen))"

declare solve_loop.simps [code]

definition solve :: "Board \<Rightarrow> (error + result) option" where
  "solve puzzle =
     (case heappush [] puzzle of
        Inl e \<Rightarrow> Some (Inl e)
      | Inr q \<Rightarrow> solve_loop q {repr puzzle})"

text \<open>
  The loop body of the children with a history variable: the third component lists the
  boards handed to \<open>q.put\<close> so far, in order. It is appended to exactly where the
  source calls \<open>q.put(nb)\<close>.
\<close>

definition put_unseen_log ::
    "Board \<Rightarrow> Board list \<times> string set \<times> Board list \<Rightarrow> error + Board list \<times> string set \<times> Board list" where
  "put_unseen_log nb s =
     (case s of (q, seen, pushed) \<Rightarrow>
        if repr nb \<notin> seen then
          bind_err (heappush q nb) (\<lambda>q. Inr (q, insert (repr nb) seen, pushed @ [nb]))
        else Inr (q, seen, pushed))"

text \<open>
  The states \<open>(q, seen)\<close> at the head of the while loop of \<open>solve\<close>, with the history
  of pushed boards: the state after the two initial statements, and the state after one
  more pass through the loop body that does not return.
\<close>

inductive search_state :: "Board \<Rightarrow> Board list \<Rightarrow> string set \<Rightarrow> Board list \<Rightarrow> bool" for puzzle where
  search_start:
    "heappush [] puzzle = Inr q \<Longrightarrow> search_state puzzle q {repr puzzle} [puzzle]"
| search_iterate:
    "search_state puzzle q seen pushed \<Longrightarrow> q \<noteq> [] \<Longrightarrow> heappop q = Inr (node, q1) \<Longrightarrow>
     \<not> is_solved node \<Longrightarrow> neighbors node True = Inr nbs \<Longrightarrow>
     for_each nbs put_unseen_log (q1, seen, pushed) = Inr (q2, seen2, pushed2) \<Longrightarrow>
     search_state puzzle q2 seen2 pushed2"

section \<open>neighbors on a store of list objects\<close>

text \<open>
  To say that \<open>neighbors\<close> leaves its board alone, the grids are placed in a store of
  Python list objects: a grid is a list object whose items are references to row list
  objects. \<open>grids\<close> and \<open>rows\<close> give the contents of the objects, \<open>ngrids\<close> and
  \<open>nrows\<close> count the objects allocated so far; a new object gets the next number.
\<close>

record store =
  grids :: "nat \<Rightarrow> nat list"
  rows :: "nat \<Rightarrow> int list"
  ngrids :: nat
  nrows :: nat















text \<open>
  A board is solvable when successor generation reaches a board that \<open>is_solved\<close>
  accepts.
\<close>

inductive solvable :: "Board \<Rightarrow> bool" where
  solvableI: "reachable puzzle b \<Longrightarrow> is_solved b \<Longrightarrow> solvable puzzle"

text \<open>
  For the proof that the search ends: the grids that moves reach from a grid, the key of a
  grid, goal detection on a grid, and the invariant of the while loop. The invariant says
  that the queue holds boards reached from the root whose parent chain starts at the root,
  that every seen key is the key of a reachable grid, and that a reachable grid with a
  seen key is either still in the queue or is unsolved with all its successors seen.
\<close>

definition reach_tiles :: "int list list \<Rightarrow> int list list set" where
  "reach_tiles t = {t'. tile_step\<^sup>*\<^sup>* t t'}"

definition key_of :: "int list list \<Rightarrow> string" where
  "key_of t = join_space (map str (concat t))"

definition solved_tiles :: "int list list \<Rightarrow> bool" where
  "solved_tiles t = is_solved (Board t None None)"

definition search_inv :: "Board \<Rightarrow> Board list \<Rightarrow> string set \<Rightarrow> bool" where
  "search_inv root q seen =
     ((\<forall>n\<in>set q. tiles n \<in> reach_tiles (tiles root) \<and> hd (path n) = root)
      \<and> key_of (tiles root) \<in> seen
      \<and> seen \<subseteq> key_of ` reach_tiles (tiles root)
      \<and> (\<forall>t\<in>reach_tiles (tiles root). key_of t \<in> seen \<longrightarrow>
            (\<exists>n\<in>set q. tiles n = t)
            \<or> (\<not> solved_tiles t \<and> (\<forall>t'. tile_step t t' \<longrightarrow> key_of t' \<in> seen))))"

section \<open>Path reconstruction\<close>

lemma path_loop_acc: "path_loop cur (acc @ acc') = acc @ path_loop cur acc'"
  by (induction cur acc' arbitrary: acc rule: path_loop.induct)
     (simp_all flip: append_assoc del: append_assoc)

lemma path_root: "path (Board t None a) = [Board t None a]"
  by (simp add: path_def)

lemma path_child: "path (Board t (Some p) a) = path p @ [Board t (Some p) a]"
proof -
  have "path_loop (Some p) ([Board t (Some p) a] @ []) = [Board t (Some p) a] @ path_loop (Some p) []"
    by (rule path_loop_acc)
  then show ?thesis by (simp add: path_def)
qed

lemma path_nonempty: "path b \<noteq> []"
  by (cases b rule: g.cases) (simp_all add: path_root path_child)

lemma last_path: "last (path b) = b"
  by (cases b rule: g.cases) (simp_all add: path_root path_child)

lemma hd_path_root: "parent b = None \<Longrightarrow> hd (path b) = b"
  by (cases b rule: g.cases) (simp_all add: path_root)

lemma hd_path_child: "hd (path (Board t (Some p) a)) = hd (path p)"
  by (simp add: path_child path_nonempty)

text \<open>
  Claim C6. \<open>path\<close> follows the parent links from a board back to the board without
  parent and returns the boards root first: the result ends with the board itself, its
  first element has no parent, its length is the board's depth \<open>g\<close> plus one, and each
  element is the parent of the next, one level deeper. This holds for every board, so for
  every goal board the search returns the path of.
\<close>

theorem path_root_first:
  "path b \<noteq> [] \<and> last (path b) = b \<and> parent (hd (path b)) = None
   \<and> int (length (path b)) = g b + 1
   \<and> (\<forall>i. Suc i < length (path b) \<longrightarrow>
         parent (path b ! Suc i) = Some (path b ! i) \<and> g (path b ! Suc i) = g (path b ! i) + 1)"
proof (induction b rule: g.induct)
  case (1 t a)
  show ?case by (simp add: path_root)
next
  case (2 t p a)
  let ?c = "Board t (Some p) a"
  from 2 have ne: "path p \<noteq> []" and la: "last (path p) = p" and hd: "parent (hd (path p)) = None"
    and len: "int (length (path p)) = g p + 1"
    and step: "\<And>i. Suc i < length (path p) \<Longrightarrow>
         parent (path p ! Suc i) = Some (path p ! i) \<and> g (path p ! Suc i) = g (path p ! i) + 1"
    by blast+
  have "\<forall>i. Suc i < length (path ?c) \<longrightarrow>
         parent (path ?c ! Suc i) = Some (path ?c ! i) \<and> g (path ?c ! Suc i) = g (path ?c ! i) + 1"
  proof (intro allI impI)
    fix i assume i: "Suc i < length (path ?c)"
    show "parent (path ?c ! Suc i) = Some (path ?c ! i) \<and> g (path ?c ! Suc i) = g (path ?c ! i) + 1"
    proof (cases "Suc i < length (path p)")
      case True
      then show ?thesis using step[OF True] by (simp add: path_child nth_append)
    next
      case False
      with i have e: "Suc i = length (path p)" by (simp add: path_child)
      then have "path p ! i = last (path p)" using ne by (simp add: last_conv_nth flip: e)
      then show ?thesis using e la by (simp add: path_child nth_append)
    qed
  qed
  then show ?case using ne la hd len by (simp add: path_child)
qed

theorem path_root_first_witness:
  "Suc 0 < length (path (Board [[1, 2], [3, 0]] (Some (Board [[1, 2], [0, 3]] None None)) (Some ''Left'')))
   \<and> path (Board [[1, 2], [3, 0]] (Some (Board [[1, 2], [0, 3]] None None)) (Some ''Left'')) ! Suc 0
       = Board [[1, 2], [3, 0]] (Some (Board [[1, 2], [0, 3]] None None)) (Some ''Left'')
   \<and> parent (path (Board [[1, 2], [3, 0]] (Some (Board [[1, 2], [0, 3]] None None)) (Some ''Left'')) ! Suc 0)
       = Some (path (Board [[1, 2], [3, 0]] (Some (Board [[1, 2], [0, 3]] None None)) (Some ''Left'')) ! 0)"
  using path_root_first [of "Board [[1, 2], [3, 0]] (Some (Board [[1, 2], [0, 3]] None None)) (Some ''Left'')"]
  by (simp add: path_child path_root)

section \<open>Comparison of boards\<close>

text \<open>
  Claim C10. Whenever the two boards' \<open>f\<close> values can be computed, \<open>__eq__\<close> returns
  whether they are equal and \<open>__lt__\<close> whether the first is strictly smaller; nothing
  else of the boards is looked at, and two boards with different tiles compare as equal.
\<close>

theorem Board_eq_lt_compare_f:
  "(\<forall>a b x y. f a = Inr x \<and> f b = Inr y \<longrightarrow>
       Board_eq a (Inl b) = Inr (x = y) \<and> Board_lt a (Inl b) = Inr (x < y))
   \<and> (\<exists>a b. tiles a \<noteq> tiles b \<and> Board_eq a (Inl b) = Inr True)"
proof
  show "\<forall>a b x y. f a = Inr x \<and> f b = Inr y \<longrightarrow>
       Board_eq a (Inl b) = Inr (x = y) \<and> Board_lt a (Inl b) = Inr (x < y)"
    by (simp add: Board_eq_def Board_lt_def getattr_f_def bind_err_def)
next
  let ?a = "Board [[1, 2], [0, 3]] None None"
  let ?b = "Board [[1, 2], [3, 0]] (Some ?a) (Some ''Left'')"
  have "Board_eq ?a (Inl ?b) = Inr True" by code_simp
  moreover have "tiles ?a \<noteq> tiles ?b" by simp
  ultimately show "\<exists>a b. tiles a \<noteq> tiles b \<and> Board_eq a (Inl b) = Inr True" by blast
qed

theorem Board_eq_lt_compare_f_witness:
  "f (Board [[1, 2], [0, 3]] None None) = Inr 1
   \<and> f (Board [[1, 2, 3], [4, 5, 6], [7, 8, 0]] None None) = Inr 0
   \<and> Board_eq (Board [[1, 2], [0, 3]] None None) (Inl (Board [[1, 2, 3], [4, 5, 6], [7, 8, 0]] None None)) = Inr False
   \<and> Board_lt (Board [[1, 2, 3], [4, 5, 6], [7, 8, 0]] None None) (Inl (Board [[1, 2], [0, 3]] None None)) = Inr True"
proof -
  have a: "f (Board [[1, 2], [0, 3]] None None) = Inr 1" by code_simp
  have b: "f (Board [[1, 2, 3], [4, 5, 6], [7, 8, 0]] None None) = Inr 0" by code_simp
  from Board_eq_lt_compare_f a b show ?thesis by simp
qed

section \<open>Successor generation\<close>

lemma bind_err_Inr [simp]: "bind_err (Inr x) k = k x"
  by (simp add: bind_err_def)

lemma bind_err_Inl [simp]: "bind_err (Inl e) k = Inl e"
  by (simp add: bind_err_def)

lemma error_is_IndexError [simp]: "(e :: error) = IndexError"
  by (cases e) simp

lemma getitem2_ok: "i < length t \<Longrightarrow> j < length (t ! i) \<Longrightarrow> getitem2 t i j = Inr (t ! i ! j)"
  by (simp add: getitem2_def)

lemma swap_exchanged:
  assumes "i1 < length t" "j1 < length (t ! i1)" "i2 < length t" "j2 < length (t ! i2)"
  shows "swap t i1 j1 i2 j2 = Inr (exchanged t (i1, j1) (i2, j2))"
proof -
  let ?t1 = "t[i1 := (t ! i1)[j1 := t ! i2 ! j2]]"
  let ?t2 = "?t1[i2 := (?t1 ! i2)[j2 := t ! i1 ! j1]]"
  have "?t2 = exchanged t (i1, j1) (i2, j2)"
  proof (rule nth_equalityI)
    show "length ?t2 = length (exchanged t (i1, j1) (i2, j2))" by (simp add: exchanged_def)
  next
    fix r assume r: "r < length ?t2"
    then have r': "r < length t" by simp
    show "?t2 ! r = exchanged t (i1, j1) (i2, j2) ! r"
    proof (rule nth_equalityI)
      show "length (?t2 ! r) = length (exchanged t (i1, j1) (i2, j2) ! r)"
        using r' assms by (simp add: exchanged_def nth_list_update)
    next
      fix c assume "c < length (?t2 ! r)"
      then have c: "c < length (t ! r)" using r' assms by (simp add: nth_list_update split: if_splits)
      show "?t2 ! r ! c = exchanged t (i1, j1) (i2, j2) ! r ! c"
        using r' c assms by (auto simp add: exchanged_def nth_list_update)
    qed
  qed
  then show ?thesis using assms by (simp add: swap_def getitem2_ok Let_def)
qed

lemma for_each_appends:
  "(\<And>x s. x \<in> set xs \<Longrightarrow> body x s = Inr (s @ h x)) \<Longrightarrow> for_each xs body s = Inr (s @ concat (map h xs))"
  by (induction xs arbitrary: s) simp_all

lemma for_each_adds:
  "(\<And>x s. x \<in> set xs \<Longrightarrow> body x s = Inr (s + h x)) \<Longrightarrow> for_each xs body s = Inr (s + sum_list (map h xs))"
  for s :: int
  by (induction xs arbitrary: s) (simp_all add: add.assoc)

lemma for_each_raises:
  "x \<in> set xs \<Longrightarrow> (\<And>s. body x s = Inl IndexError) \<Longrightarrow> for_each xs body s = Inl IndexError"
proof (induction xs arbitrary: s)
  case Nil then show ?case by simp
next
  case (Cons y ys)
  show ?case
  proof (cases "body y s")
    case (Inl e) then show ?thesis by simp
  next
    case (Inr s')
    with Cons.prems have "x \<in> set ys" by auto
    with Cons Inr show ?thesis by simp
  qed
qed

lemma rows_okD:
  assumes "rows_ok t" "i < length t" "j < length t"
  shows "j < length (t ! i)"
proof -
  have "t ! i \<in> set t" using assms(2) by simp
  then have "length t \<le> length (t ! i)" using assms(1) unfolding rows_ok_def by blast
  then show ?thesis using assms(3) by simp
qed

lemma move_if_ok:
  assumes "c \<Longrightarrow> swap (tiles self) i' j' i j = Inr (exchanged (tiles self) (i', j') (i, j))"
  shows "move_if c self rp i' j' i j a nbs =
          Inr (nbs @ (if c then [mk_child self rp (exchanged (tiles self) (i', j') (i, j), a)] else []))"
  using assms by (cases c) (simp_all add: move_if_def append_child_def mk_child_def)

lemma visit_cell_ok:
  assumes ok: "rows_ok (tiles self)" and i: "i < width self" and j: "j < width self"
  shows "visit_cell self rp i j nbs =
           Inr (nbs @ (if tiles self ! i ! j = 0 then map (mk_child self rp) (moves_at (tiles self) (i, j)) else []))"
proof -
  let ?t = "tiles self"
  have i': "i < length ?t" and j': "j < length ?t" using i j by (simp_all add: width_def)
  have b: "\<And>a b. a < length ?t \<Longrightarrow> b < length ?t \<Longrightarrow> b < length (?t ! a)"
    using ok by (simp add: rows_okD)
  have g: "getitem2 ?t i j = Inr (?t ! i ! j)"
    using i' j' b by (simp add: getitem2_ok)
  have s1: "0 < i \<Longrightarrow> swap ?t (i - 1) j i j = Inr (exchanged ?t (i - 1, j) (i, j))"
    using i' j' by (intro swap_exchanged b) simp_all
  have s2: "i + 1 < length ?t \<Longrightarrow> swap ?t (i + 1) j i j = Inr (exchanged ?t (i + 1, j) (i, j))"
    using i' j' by (intro swap_exchanged b) simp_all
  have s3: "0 < j \<Longrightarrow> swap ?t i (j - 1) i j = Inr (exchanged ?t (i, j - 1) (i, j))"
    using i' j' by (intro swap_exchanged b) simp_all
  have s4: "j + 1 < length ?t \<Longrightarrow> swap ?t i (j + 1) i j = Inr (exchanged ?t (i, j + 1) (i, j))"
    using i' j' by (intro swap_exchanged b) simp_all
  have c1: "(int i - 1 \<ge> 0) = (0 < i)" and c3: "(int j - 1 \<ge> 0) = (0 < j)" by auto
  have m1: "move_if (0 < i) self rp (i - 1) j i j ''Down'' nbs
        = Inr (nbs @ (if 0 < i then [mk_child self rp (exchanged ?t (i - 1, j) (i, j), ''Down'')] else []))" for nbs
    by (rule move_if_ok) (rule s1)
  have m2: "move_if (i + 1 < length ?t) self rp (i + 1) j i j ''Up'' nbs
        = Inr (nbs @ (if i + 1 < length ?t then [mk_child self rp (exchanged ?t (i + 1, j) (i, j), ''Up'')] else []))" for nbs
    by (rule move_if_ok) (rule s2)
  have m3: "move_if (0 < j) self rp i (j - 1) i j ''Right'' nbs
        = Inr (nbs @ (if 0 < j then [mk_child self rp (exchanged ?t (i, j - 1) (i, j), ''Right'')] else []))" for nbs
    by (rule move_if_ok) (rule s3)
  have m4: "move_if (j + 1 < length ?t) self rp i (j + 1) i j ''Left'' nbs
        = Inr (nbs @ (if j + 1 < length ?t then [mk_child self rp (exchanged ?t (i, j + 1) (i, j), ''Left'')] else []))" for nbs
    by (rule move_if_ok) (rule s4)
  show ?thesis
    unfolding visit_cell_def width_def g c1 c3 m1 m2 m3 m4
    by (simp add: moves_at_def)
qed

lemma visit_cell_raises:
  assumes "i < length (tiles self)" "\<not> j < length (tiles self ! i)"
  shows "visit_cell self rp i j nbs = Inl IndexError"
  using assms by (simp add: visit_cell_def getitem2_def)

lemma concat_blanks:
  "concat (map (\<lambda>i. concat (map (\<lambda>j. if P i j then H (i, j) else []) js)) is)
   = concat (map H (concat (map (\<lambda>i. concat (map (\<lambda>j. if P i j then [(i, j)] else []) js)) is)))"
proof -
  have "\<And>i. concat (map (\<lambda>j. if P i j then H (i, j) else []) js)
       = concat (map H (concat (map (\<lambda>j. if P i j then [(i, j)] else []) js)))"
    by (induction js) simp_all
  then show ?thesis by (induction "is") simp_all
qed

lemma neighbors_ok:
  assumes ok: "rows_ok (tiles self)"
  shows "neighbors self rp = Inr (concat (map (\<lambda>p. map (mk_child self rp) (moves_at (tiles self) p)) (blanks (tiles self))))"
proof -
  let ?t = "tiles self"
  let ?H = "\<lambda>p. map (mk_child self rp) (moves_at ?t p)"
  have inner: "\<And>i s. i \<in> set [0..<width self] \<Longrightarrow>
      for_each [0..<width self] (\<lambda>j. visit_cell self rp i j) s
      = Inr (s @ concat (map (\<lambda>j. if ?t ! i ! j = 0 then ?H (i, j) else []) [0..<width self]))"
    by (rule for_each_appends) (simp add: visit_cell_ok ok)
  have "neighbors self rp = Inr ([] @ concat (map (\<lambda>i. concat (map (\<lambda>j. if ?t ! i ! j = 0 then ?H (i, j) else []) [0..<width self])) [0..<width self]))"
    unfolding neighbors_def by (rule for_each_appends) (rule inner)
  then show ?thesis
    unfolding blanks_def width_def
    by (simp only: append_Nil concat_blanks[of "\<lambda>i j. ?t ! i ! j = 0" ?H])
qed

lemma neighbors_raises:
  assumes "\<not> rows_ok (tiles self)"
  shows "neighbors self rp = Inl IndexError"
proof -
  let ?t = "tiles self"
  let ?row = "\<lambda>i. for_each [0..<width self] (\<lambda>j. visit_cell self rp i j)"
  from assms obtain r where r: "r \<in> set ?t" "length r < length ?t" by (auto simp: rows_ok_def)
  then obtain i where i: "i < length ?t" "?t ! i = r" by (auto simp: in_set_conv_nth)
  have row: "?row i s = Inl IndexError" for s
  proof (rule for_each_raises[where x = "length r"])
    show "length r \<in> set [0..<width self]" using r by (simp add: width_def)
  next
    fix s show "visit_cell self rp i (length r) s = Inl IndexError"
      using i by (simp add: visit_cell_raises)
  qed
  have "for_each [0..<width self] ?row [] = Inl IndexError"
  proof (rule for_each_raises[where x = i])
    show "i \<in> set [0..<width self]" using i by (simp add: width_def)
  next
    fix s show "?row i s = Inl IndexError" by (rule row)
  qed
  then show ?thesis by (simp add: neighbors_def)
qed

lemma exchanged_updates:
  assumes "i1 < length t" "j1 < length (t ! i1)" "i2 < length t" "j2 < length (t ! i2)"
  shows "exchanged t (i1, j1) (i2, j2) =
           (t[i1 := (t ! i1)[j1 := t ! i2 ! j2]])
             [i2 := ((t[i1 := (t ! i1)[j1 := t ! i2 ! j2]]) ! i2)[j2 := t ! i1 ! j1]]"
  using swap_exchanged[OF assms] assms by (simp add: swap_def getitem2_ok Let_def)

lemma mset_concat_update:
  "i < length t \<Longrightarrow> j < length (t ! i) \<Longrightarrow>
   mset (concat (t[i := (t ! i)[j := v]])) + {#t ! i ! j#} = mset (concat t) + {#v#}"
proof (induction t arbitrary: i)
  case Nil then show ?case by simp
next
  case (Cons r t)
  show ?case
  proof (cases i)
    case 0
    with Cons.prems have "j < length r" by simp
    then have "mset (r[j := v]) + {#r ! j#} = mset r + {#v#}"
      by (simp add: mset_update insert_DiffM nth_mem_mset)
    then show ?thesis using 0 by (simp add: ac_simps) 
  next
    case (Suc k)
    with Cons.prems have "k < length t" "j < length (t ! k)" by simp_all
    from Cons.IH[OF this] show ?thesis using Suc by (simp add: ac_simps)
  qed
qed

lemma length_exchanged [simp]: "length (exchanged t p q) = length t"
  by (simp add: exchanged_def)

lemma map_length_exchanged [simp]: "map length (exchanged t p q) = map length t"
  by (rule nth_equalityI) (simp_all add: exchanged_def)

lemma mset_concat_exchanged:
  assumes "i1 < length t" "j1 < length (t ! i1)" "i2 < length t" "j2 < length (t ! i2)"
  shows "mset (concat (exchanged t (i1, j1) (i2, j2))) = mset (concat t)"
proof -
  let ?a = "t ! i2 ! j2" and ?b = "t ! i1 ! j1"
  let ?t1 = "t[i1 := (t ! i1)[j1 := ?a]]"
  let ?t2 = "?t1[i2 := (?t1 ! i2)[j2 := ?b]]"
  have 1: "mset (concat ?t1) + {#?b#} = mset (concat t) + {#?a#}"
    using assms by (rule_tac mset_concat_update)
  have a: "?t1 ! i2 ! j2 = ?a" using assms
    by (cases "i1 = i2"; cases "j1 = j2") (simp_all add: nth_list_update)
  have "i2 < length ?t1" "j2 < length (?t1 ! i2)" using assms by (simp_all add: nth_list_update)
  from mset_concat_update[OF this, of ?b]
  have 2: "mset (concat ?t2) + {#?a#} = mset (concat ?t1) + {#?b#}" by (simp only: a)
  from 1 2 have "mset (concat ?t2) + {#?a#} = mset (concat t) + {#?a#}" by simp
  then have "mset (concat ?t2) = mset (concat t)" by simp
  then show ?thesis by (simp only: exchanged_updates[OF assms])
qed

lemma rows_ok_shape: "map length t' = map length t \<Longrightarrow> rows_ok t' = rows_ok t"
proof -
  assume a: "map length t' = map length t"
  then have l: "length t' = length t" by (rule map_eq_imp_length_eq)
  have "(\<forall>r\<in>set t'. length t' \<le> length r) = (\<forall>n\<in>set (map length t'). length t' \<le> n)" by simp
  also have "\<dots> = (\<forall>n\<in>set (map length t). length t \<le> n)" by (simp only: a l)
  also have "\<dots> = (\<forall>r\<in>set t. length t \<le> length r)" by simp
  finally show ?thesis by (simp add: rows_ok_def)
qed

lemma in_blanks: "p \<in> set (blanks t) \<longleftrightarrow> fst p < length t \<and> snd p < length t \<and> t ! fst p ! snd p = 0"
  by (cases p) (auto simp: blanks_def split: if_splits)

lemma in_moves_at:
  assumes "m \<in> set (moves_at t p)" "fst p < length t" "snd p < length t"
  shows "\<exists>p'. fst p' < length t \<and> snd p' < length t \<and> fst m = exchanged t p' p"
proof -
  obtain i j where p: "p = (i, j)" by (cases p)
  from assms(1) consider
      "0 < i" "fst m = exchanged t (i - 1, j) p"
    | "i + 1 < length t" "fst m = exchanged t (i + 1, j) p"
    | "0 < j" "fst m = exchanged t (i, j - 1) p"
    | "j + 1 < length t" "fst m = exchanged t (i, j + 1) p"
    by (auto simp: moves_at_def p split: if_splits)
  then show ?thesis
  proof cases
    case 1 then show ?thesis using assms(2,3) p by (intro exI[of _ "(i - 1, j)"]) simp
  next
    case 2 then show ?thesis using assms(2,3) p by (intro exI[of _ "(i + 1, j)"]) simp
  next
    case 3 then show ?thesis using assms(2,3) p by (intro exI[of _ "(i, j - 1)"]) simp
  next
    case 4 then show ?thesis using assms(2,3) p by (intro exI[of _ "(i, j + 1)"]) simp
  qed
qed

lemma tile_step_iff:
  "tile_step t t' \<longleftrightarrow> rows_ok t \<and> (\<exists>p\<in>set (blanks t). t' \<in> fst ` set (moves_at t p))"
proof (cases "rows_ok t")
  case False
  then show ?thesis by (simp add: tile_step_def neighbors_raises)
next
  case True
  have "tiles (mk_child (Board t None None) False m) = fst m" for m
    by (simp add: mk_child_def)
  then have "map tiles (concat (map (\<lambda>p. map (mk_child (Board t None None) False) (moves_at t p)) ps))
       = concat (map (\<lambda>p. map fst (moves_at t p)) ps)" for ps
    by (simp add: map_concat comp_def)
  then show ?thesis using True
    by (force simp add: tile_step_def neighbors_ok)
qed

lemma tile_step_exchanged:
  assumes "tile_step t t'"
  shows "rows_ok t \<and> (\<exists>p p'. fst p < length t \<and> snd p < length t \<and> t ! fst p ! snd p = 0
            \<and> fst p' < length t \<and> snd p' < length t \<and> t' = exchanged t p' p)"
proof -
  from assms obtain p m where ok: "rows_ok t" and p: "p \<in> set (blanks t)" and m: "m \<in> set (moves_at t p)" "t' = fst m"
    by (auto simp: tile_step_iff)
  from p have pb: "fst p < length t" "snd p < length t" "t ! fst p ! snd p = 0" by (simp_all add: in_blanks)
  from in_moves_at[OF m(1) pb(1,2)] obtain p' where "fst p' < length t" "snd p' < length t" "fst m = exchanged t p' p"
    by blast
  with ok pb m show ?thesis by blast
qed

lemma tile_step_preserves:
  assumes "tile_step t t'"
  shows "map length t' = map length t" and "mset (concat t') = mset (concat t)" and "rows_ok t'"
proof -
  from tile_step_exchanged[OF assms] obtain p p' where ok: "rows_ok t"
    and p: "fst p < length t" "snd p < length t" and p': "fst p' < length t" "snd p' < length t"
    and t': "t' = exchanged t p' p" by blast
  show s: "map length t' = map length t" by (simp add: t')
  have "mset (concat (exchanged t (fst p', snd p') (fst p, snd p))) = mset (concat t)"
    using ok p p' by (intro mset_concat_exchanged rows_okD)
  then show "mset (concat t') = mset (concat t)" by (simp add: t')
  show "rows_ok t'" using ok by (simp add: rows_ok_shape[OF s])
qed

lemma reach_preserves:
  assumes "tile_step\<^sup>*\<^sup>* t t'"
  shows "map length t' = map length t \<and> mset (concat t') = mset (concat t)"
  using assms by (induction rule: rtranclp_induct) (simp_all add: tile_step_preserves)

lemma reach_perm_tiles:
  assumes "perm_tiles t" "t \<noteq> []" "tile_step\<^sup>*\<^sup>* t t'"
  shows "perm_tiles t' \<and> count_list (concat t') 0 = 1"
proof -
  from reach_preserves[OF assms(3)] have s: "map length t' = map length t" and m: "mset (concat t') = mset (concat t)"
    by simp_all
  from s have l: "length t' = length t" by (rule map_eq_imp_length_eq)
  have p: "perm_tiles t'" using assms(1) by (simp add: perm_tiles_def m l)
  have "0 < (length t')\<^sup>2" using assms(2) l by simp
  then have "(0::int) \<in> set (map int [0..<(length t')\<^sup>2])" by force
  moreover have "distinct (map int [0..<(length t')\<^sup>2])" by (simp add: distinct_map)
  ultimately have "count (mset (map int [0..<(length t')\<^sup>2])) 0 = 1"
    by (simp only: distinct_count_atmost_1 if_True)
  then have "count (mset (concat t')) 0 = 1" using p by (simp only: perm_tiles_def)
  then have "count_list (concat t') 0 = 1" by (simp only: count_mset)
  with p show ?thesis by simp
qed

lemma tiles_mk_child [simp]: "tiles (mk_child b rp m) = fst m"
  by (simp add: mk_child_def)

lemma neighbors_Inr_rows_ok: "neighbors b rp = Inr nbs \<Longrightarrow> rows_ok (tiles b)"
  using neighbors_raises[of b rp] by auto

lemma neighbors_child_cases:
  assumes "neighbors b rp = Inr nbs" "c \<in> set nbs"
  shows "\<exists>p\<in>set (blanks (tiles b)). \<exists>m\<in>set (moves_at (tiles b) p). c = mk_child b rp m"
proof -
  have "rows_ok (tiles b)" using assms(1) by (rule neighbors_Inr_rows_ok)
  from neighbors_ok[OF this, of rp] assms show ?thesis by auto
qed

lemma neighbors_tile_step:
  assumes "neighbors b rp = Inr nbs" "c \<in> set nbs"
  shows "tile_step (tiles b) (tiles c)"
proof -
  from neighbors_child_cases[OF assms] obtain p m where "p \<in> set (blanks (tiles b))" "m \<in> set (moves_at (tiles b) p)" "c = mk_child b rp m"
    by blast
  moreover have "rows_ok (tiles b)" using assms(1) by (rule neighbors_Inr_rows_ok)
  ultimately show ?thesis by (auto simp: tile_step_iff)
qed

lemma reachable_tile_steps: "reachable root b \<Longrightarrow> tile_step\<^sup>*\<^sup>* (tiles root) (tiles b)"
proof (induction rule: reachable.induct)
  case reachable_root show ?case by simp
next
  case (reachable_child b rp nbs c)
  from neighbors_tile_step[OF reachable_child(2,3)] reachable_child(4) show ?case by simp
qed



section \<open>Keys: str, join and repr are injective\<close>

lemma digit_char_inj: "d < 10 \<Longrightarrow> e < 10 \<Longrightarrow> digit_char d = digit_char e \<Longrightarrow> d = e"
proof -
  assume d: "d < 10" and e: "e < 10" and eq: "digit_char d = digit_char e"
  from eq have "(of_char (digit_char d) :: nat) = of_char (digit_char e)" by simp
  then have "(48 + d) mod 256 = (48 + e) mod 256" by (simp add: digit_char_def)
  with d e show ?thesis by simp
qed

lemma digit_char_not_space: "d < 10 \<Longrightarrow> digit_char d \<noteq> CHR '' ''"
proof
  assume d: "d < 10" and eq: "digit_char d = CHR '' ''"
  from eq have "(of_char (digit_char d) :: nat) = of_char (CHR '' '')" by simp
  then have "(48 + d) mod 256 = 32" by (simp add: digit_char_def)
  with d show False by simp
qed

lemma digit_char_not_minus: "d < 10 \<Longrightarrow> digit_char d \<noteq> CHR ''-''"
proof
  assume d: "d < 10" and eq: "digit_char d = CHR ''-''"
  from eq have "(of_char (digit_char d) :: nat) = of_char (CHR ''-'')" by simp
  then have "(48 + d) mod 256 = 45" by (simp add: digit_char_def)
  with d show False by simp
qed

lemma str_nat_digits: "set (str_nat n) \<subseteq> digit_char ` {..<10}"
proof (induction n rule: str_nat.induct)
  case (1 n)
  show ?case
  proof (cases "n < 10")
    case True then show ?thesis by (subst str_nat.simps) simp
  next
    case False
    with 1 have "set (str_nat (n div 10)) \<subseteq> digit_char ` {..<10}" by simp
    then show ?thesis using False by (subst str_nat.simps) simp
  qed
qed

lemma str_nat_nonempty: "str_nat n \<noteq> []"
  by (subst str_nat.simps) simp

lemma str_nat_inj: "str_nat n = str_nat m \<Longrightarrow> n = m"
proof (induction n arbitrary: m rule: str_nat.induct)
  case (1 n)
  show ?case
  proof (cases "n < 10")
    case n: True
    show ?thesis
    proof (cases "m < 10")
      case True
      with n 1(2) show ?thesis by (simp add: str_nat.simps[of n] str_nat.simps[of m] digit_char_inj)
    next
      case False
      with n 1(2) have "[digit_char n] = str_nat (m div 10) @ [digit_char (m mod 10)]"
        by (simp add: str_nat.simps[of n] str_nat.simps[of m])
      then show ?thesis using str_nat_nonempty[of "m div 10"] by simp
    qed
  next
    case n: False
    show ?thesis
    proof (cases "m < 10")
      case True
      with n 1(2) have "str_nat (n div 10) @ [digit_char (n mod 10)] = [digit_char m]"
        by (simp add: str_nat.simps[of n] str_nat.simps[of m])
      then show ?thesis using str_nat_nonempty[of "n div 10"] by simp
    next
      case False
      with n 1(2) have e: "str_nat (n div 10) = str_nat (m div 10)" "digit_char (n mod 10) = digit_char (m mod 10)"
        by (simp_all add: str_nat.simps[of n] str_nat.simps[of m])
      from 1(1)[OF n e(1)] have "n div 10 = m div 10" .
      moreover from e(2) have "n mod 10 = m mod 10" by (intro digit_char_inj) simp_all
      ultimately show ?thesis by (metis div_mult_mod_eq)
    qed
  qed
qed

lemma str_no_space: "CHR '' '' \<notin> set (str v)"
proof -
  have "CHR '' '' \<notin> set (str_nat n)" for n
  proof
    assume "CHR '' '' \<in> set (str_nat n)"
    with str_nat_digits[of n] obtain d where "d < 10" "CHR '' '' = digit_char d" by blast
    with digit_char_not_space[of d] show False by simp
  qed
  then show ?thesis by (simp add: str_def)
qed

lemma str_nonempty: "str v \<noteq> []"
  by (simp add: str_def str_nat_nonempty)

lemma str_inj: "str v = str w \<Longrightarrow> v = w"
proof -
  assume eq: "str v = str w"
  have hd: "hd (str_nat n) \<noteq> CHR ''-''" for n
  proof -
    have "hd (str_nat n) \<in> set (str_nat n)" by (simp add: str_nat_nonempty)
    with str_nat_digits[of n] obtain d where "d < 10" "hd (str_nat n) = digit_char d" by blast
    with digit_char_not_minus[of d] show ?thesis by simp
  qed
  show ?thesis
  proof (cases "v < 0")
    case v: True
    show ?thesis
    proof (cases "w < 0")
      case True
      with v eq have "str_nat (nat (- v)) = str_nat (nat (- w))" by (simp add: str_def)
      then have "nat (- v) = nat (- w)" by (rule str_nat_inj)
      with v True show ?thesis by simp
    next
      case False
      with v eq have "CHR ''-'' # str_nat (nat (- v)) = str_nat (nat w)" by (simp add: str_def)
      then have "hd (str_nat (nat w)) = CHR ''-''" by (metis list.sel(1))
      with hd show ?thesis by simp
    qed
  next
    case v: False
    show ?thesis
    proof (cases "w < 0")
      case True
      with v eq have "str_nat (nat v) = CHR ''-'' # str_nat (nat (- w))" by (simp add: str_def)
      then have "hd (str_nat (nat v)) = CHR ''-''" by (metis list.sel(1))
      with hd show ?thesis by simp
    next
      case False
      with v eq have "str_nat (nat v) = str_nat (nat w)" by (simp add: str_def)
      then have "nat v = nat w" by (rule str_nat_inj)
      with v False show ?thesis by simp
    qed
  qed
qed

lemma join_space_Cons: "ws \<noteq> [] \<Longrightarrow> join_space (w # ws) = w @ CHR '' '' # join_space ws"
  by (cases ws) simp_all

lemma join_space_nonempty: "word_list ws \<Longrightarrow> ws \<noteq> [] \<Longrightarrow> join_space ws \<noteq> []"
  by (cases ws rule: join_space.cases) (simp_all add: word_list_def)

lemma join_space_snoc: "ws \<noteq> [] \<Longrightarrow> join_space (ws @ [w]) = join_space ws @ CHR '' '' # w"
proof (induction ws rule: join_space.induct)
  case 1 then show ?case by simp
next
  case (2 v) show ?case by simp
next
  case (3 u v ws)
  then show ?case by simp
qed

lemma takeWhile_join:
  assumes "word_list (w # ws)"
  shows "takeWhile (\<lambda>c. c \<noteq> CHR '' '') (join_space (w # ws)) = w"
    and "dropWhile (\<lambda>c. c \<noteq> CHR '' '') (join_space (w # ws)) = (if ws = [] then [] else CHR '' '' # join_space ws)"
proof -
  have w: "\<forall>c\<in>set w. c \<noteq> CHR '' ''" using assms by (auto simp: word_list_def)
  show "takeWhile (\<lambda>c. c \<noteq> CHR '' '') (join_space (w # ws)) = w"
    using w by (cases ws) (simp_all add: takeWhile_append2)
  show "dropWhile (\<lambda>c. c \<noteq> CHR '' '') (join_space (w # ws)) = (if ws = [] then [] else CHR '' '' # join_space ws)"
    using w by (cases ws) (simp_all add: dropWhile_append2)
qed

lemma join_space_inj:
  "word_list ws \<Longrightarrow> word_list vs \<Longrightarrow> join_space ws = join_space vs \<Longrightarrow> ws = vs"
proof (induction ws arbitrary: vs)
  case Nil
  then show ?case using join_space_nonempty[of vs] by (cases vs) auto
next
  case (Cons w ws)
  show ?case
  proof (cases vs)
    case Nil
    with Cons.prems show ?thesis using join_space_nonempty[of "w # ws"] by auto
  next
    case (Cons v vs')
    from Cons.prems(1) have ww: "word_list ws" by (simp add: word_list_def)
    from Cons.prems(2) Cons have wv: "word_list vs'" "word_list (v # vs')" by (simp_all add: word_list_def)
    from Cons.prems(3) Cons have eq: "join_space (w # ws) = join_space (v # vs')" by simp
    have "w = v"
      using takeWhile_join(1)[OF Cons.prems(1)] takeWhile_join(1)[OF wv(2)] eq by simp
    have d: "(if ws = [] then [] else CHR '' '' # join_space ws) = (if vs' = [] then [] else CHR '' '' # join_space vs')"
      using takeWhile_join(2)[OF Cons.prems(1)] takeWhile_join(2)[OF wv(2)] eq by simp
    have "ws = vs'"
    proof (cases "ws = []")
      case True
      with d show ?thesis by (cases "vs' = []") simp_all
    next
      case False
      with d have "vs' \<noteq> []" "join_space ws = join_space vs'" by (cases "vs' = []"; simp)+
      with Cons.IH[OF ww wv(1)] show ?thesis by simp
    qed
    with \<open>w = v\<close> Cons show ?thesis by simp
  qed
qed

lemma word_list_str: "word_list (map str xs)"
  by (simp add: word_list_def str_nonempty str_no_space)

lemma repr_inj_flat: "join_space (map str xs) = join_space (map str ys) \<Longrightarrow> xs = ys"
proof -
  assume "join_space (map str xs) = join_space (map str ys)"
  then have "map str xs = map str ys" by (intro join_space_inj word_list_str)
  moreover have "inj str" by (rule injI) (rule str_inj)
  ultimately show ?thesis by (simp add: inj_map_eq_map)
qed

lemma concat_shape_inj:
  "map length t = map length t' \<Longrightarrow> concat t = concat t' \<Longrightarrow> t = t'"
proof (induction t arbitrary: t')
  case Nil then show ?case by simp
next
  case (Cons r t)
  then obtain r' u where t': "t' = r' # u" by (cases t') auto
  with Cons.prems have "length r = length r'" "map length t = map length u" "r @ concat t = r' @ concat u" by simp_all
  then have "r = r'" "concat t = concat u" by simp_all
  with Cons.IH[OF \<open>map length t = map length u\<close>] t' show ?case by simp
qed

lemma repr_inj:
  "map length (tiles b) = map length (tiles b') \<Longrightarrow> repr b = repr b' \<Longrightarrow> tiles b = tiles b'"
  by (intro concat_shape_inj repr_inj_flat) (simp_all add: repr_def iter_def)

section \<open>neighbors on the store agrees with neighbors on values\<close>






















text \<open>
  Claim C8. If the flattened tiles of a non-empty root board are a permutation of
  \<open>0..width\<^sup>2 - 1\<close>, then so are the flattened tiles of every board reachable from it
  through \<open>neighbors\<close>, and exactly one of them is the blank.
\<close>

theorem reachable_perm:
  assumes "perm_tiles (tiles root)" "tiles root \<noteq> []" "reachable root b"
  shows "perm_tiles (tiles b) \<and> count_list (iter b) 0 = 1"
  using reach_perm_tiles[OF assms(1,2) reachable_tile_steps[OF assms(3)]] by (simp add: iter_def)

theorem reachable_perm_witness:
  "perm_tiles [[1, 2], [0, 3]] \<and> [[1, 2], [0, 3]] \<noteq> ([] :: int list list)
   \<and> reachable (Board [[1, 2], [0, 3]] None None) (Board [[1, 2], [3, 0]] (Some (Board [[1, 2], [0, 3]] None None)) (Some ''Left''))
   \<and> perm_tiles [[1, 2], [3, 0]] \<and> count_list [1, 2, 3, 0 :: int] 0 = 1"
proof -
  let ?r = "Board [[1, 2], [0, 3]] None None"
  let ?c = "Board [[1, 2], [3, 0]] (Some ?r) (Some ''Left'')"
  have p: "perm_tiles (tiles ?r)" by (simp add: perm_tiles_def eval_nat_numeral upt_rec)
  have n: "neighbors ?r True = Inr [Board [[0, 2], [1, 3]] (Some ?r) (Some ''Down''), ?c]" by code_simp
  have r: "reachable ?r ?c"
    by (rule reachable_child[OF reachable_root n]) simp
  from reachable_perm[OF p _ r] p r show ?thesis by (simp add: iter_def)
qed

section \<open>Goal detection\<close>

lemma concat_rows_upt:
  "concat (map (\<lambda>i. map (\<lambda>j. h (i * w + j)) [0..<w]) [0..<n]) = map h [0..<n * w]"
proof (induction n)
  case 0 show ?case by simp
next
  case (Suc n)
  have "map (\<lambda>j. h (n * w + j)) [0..<w] = map h (map (\<lambda>j. j + n * w) [0..<w])"
    by (simp add: add.commute)
  also have "\<dots> = map h [n * w..<n * w + w]" by (simp only: map_add_upt add.commute)
  finally have "map (\<lambda>j. h (n * w + j)) [0..<w] = map h [n * w..<n * w + w]" .
  moreover have "[0..<n * w + w] = [0..<n * w] @ [n * w..<n * w + w]"
    by (rule upt_add_eq_append) simp
  ultimately show ?case using Suc by (simp add: add.commute)
qed

lemma concat_make_goal: "0 < w \<Longrightarrow> concat (make_goal (int w)) = solved_flat w"
proof -
  assume w: "0 < w"
  let ?arr = "map int [1..<w * w] @ [0]"
  have n: "nat (int w * int w) = w * w" by (simp flip: of_nat_mult)
  have l: "length ?arr = w * w" using w by (simp add: Suc_leI)
  have "concat (make_goal (int w)) = map (\<lambda>k. ?arr ! k) [0..<w * w]"
    unfolding make_goal_def Let_def n nat_int by (rule concat_rows_upt)
  also have "\<dots> = ?arr" using map_nth[of ?arr] by (simp only: l)
  finally show ?thesis by (simp add: solved_flat_def power2_eq_square)
qed

lemma length_make_goal: "length (make_goal (int w)) = w"
  by (simp add: make_goal_def)

lemma row_length_make_goal: "r \<in> set (make_goal (int w)) \<Longrightarrow> length r = w"
  by (auto simp: make_goal_def)

lemma solved_key:
  assumes "2 \<le> w"
  shows "join_space (map str (map int [1..<w\<^sup>2])) @ '' 0'' = join_space (map str (solved_flat w))"
proof -
  from assms have "2\<^sup>2 \<le> w\<^sup>2" by (rule power_mono) simp
  then have "1 < w\<^sup>2" by simp
  moreover have "0 < w" using assms by simp
  ultimately have ne: "map str (map int [1..<w\<^sup>2]) \<noteq> []" by simp
  have z: "str 0 = ''0''" by code_simp
  show ?thesis
    unfolding solved_flat_def map_append
    using join_space_snoc[OF ne, of "str 0"] by (simp add: z)
qed

lemma is_solved_iff_flat:
  assumes "2 \<le> width b"
  shows "is_solved b \<longleftrightarrow> iter b = solved_flat (width b)"
proof -
  have "is_solved b \<longleftrightarrow> join_space (map str (iter b)) = join_space (map str (solved_flat (width b)))"
    by (simp only: is_solved_def Let_def repr_def solved_key[OF assms])
  also have "\<dots> \<longleftrightarrow> iter b = solved_flat (width b)"
    using repr_inj_flat by auto
  finally show ?thesis .
qed

text \<open>
  Claim C5, amended. For every width of at least 1 the flattened solved board made by
  \<open>make_goal\<close> is \<open>1, \<dots>, width\<^sup>2 - 1\<close> followed by 0, and its key is the
  joined text of that sequence; for every board of width at least 2, \<open>is_solved\<close> holds
  exactly when the board's key equals the key of the solved board of its width.
\<close>

theorem goal_key:
  "(\<forall>w p a. 0 < w \<longrightarrow> iter (Board (make_goal (int w)) p a) = map int [1..<w\<^sup>2] @ [0]
        \<and> repr (Board (make_goal (int w)) p a) = join_space (map str (map int [1..<w\<^sup>2] @ [0])))
   \<and> (\<forall>b. 2 \<le> width b \<longrightarrow>
        (is_solved b \<longleftrightarrow> repr b = repr (Board (make_goal (int (width b))) None None)))"
proof (intro conjI allI impI)
  fix w :: nat and p a assume w: "0 < w"
  show "iter (Board (make_goal (int w)) p a) = map int [1..<w\<^sup>2] @ [0]"
    using concat_make_goal[OF w] by (simp add: iter_def solved_flat_def)
  then show "repr (Board (make_goal (int w)) p a) = join_space (map str (map int [1..<w\<^sup>2] @ [0]))"
    by (simp add: repr_def)
next
  fix b assume w: "2 \<le> width b"
  then have "0 < width b" by simp
  from concat_make_goal[OF this]
  have "repr (Board (make_goal (int (width b))) None None) = join_space (map str (solved_flat (width b)))"
    by (simp add: repr_def iter_def)
  then show "is_solved b \<longleftrightarrow> repr b = repr (Board (make_goal (int (width b))) None None)"
    by (simp only: is_solved_def Let_def solved_key[OF w])
qed

theorem goal_key_witness:
  "(0::nat) < 2 \<and> 2 \<le> width (Board [[1, 2], [3, 0]] None None)
   \<and> iter (Board (make_goal 2) None None) = [1, 2, 3, 0]
   \<and> repr (Board (make_goal 2) None None) = ''1 2 3 0''
   \<and> is_solved (Board [[1, 2], [3, 0]] None None)"
proof -
  have w: "2 \<le> width (Board [[1, 2], [3, 0]] None None)" by (simp add: width_def)
  have r: "repr (Board [[1, 2], [3, 0]] None None) = repr (Board (make_goal (int (width (Board [[1, 2], [3, 0]] None None)))) None None)"
    by code_simp
  have e: "map int [1..<2\<^sup>2] @ [0] = [1, 2, 3, 0]" by code_simp
  have s: "join_space (map str [1, 2, 3, 0]) = ''1 2 3 0''" by code_simp
  have n: "int 2 = 2" by simp
  note g1 = goal_key[THEN conjunct1, rule_format, of 2 None None, unfolded e s n]
  note g2 = goal_key[THEN conjunct2, rule_format, OF w]
  have "is_solved (Board [[1, 2], [3, 0]] None None)" using g2 r by simp
  moreover have "(0::nat) < 2" by simp
  ultimately show ?thesis using w g1 by blast
qed

text \<open>
  At width 1 the claim fails: \<open>is_solved\<close> compares with the text \<open>'' 0''\<close>, which
  starts with the separator, while the key of the solved board \<open>[[0]]\<close> is \<open>''0''\<close>.
\<close>

theorem goal_key_width_one_counterexample:
  "repr (Board [[0]] None None) = repr (Board (make_goal 1) None None)
   \<and> \<not> is_solved (Board [[0]] None None)"
  by code_simp

section \<open>The heuristic\<close>

lemma sum_list_upt: "sum_list (map h [0..<n]) = (\<Sum>i<n. h i)" for h :: "nat \<Rightarrow> int"
  by (simp add: interv_sum_list_conv_sum_set_nat atLeast0LessThan)

lemma manhattan_ok:
  assumes ok: "rows_ok (tiles b)"
  shows "manhattan b = Inr (manhattan_sum b)"
proof -
  let ?h = "\<lambda>i j. if tiles b ! i ! j \<noteq> 0 then tile_distance (width b) i j (tiles b ! i ! j) else 0"
  have cell: "manhattan_cell b i j d = Inr (d + ?h i j)" if "i < width b" "j < width b" for i j d
  proof -
    have "getitem2 (tiles b) i j = Inr (tiles b ! i ! j)"
      using that ok by (simp add: getitem2_ok rows_okD width_def)
    then show ?thesis by (simp add: manhattan_cell_def tile_distance_def Let_def)
  qed
  have row: "for_each [0..<width b] (\<lambda>j. manhattan_cell b i j) d = Inr (d + sum_list (map (?h i) [0..<width b]))"
    if "i < width b" for i d
    by (rule for_each_adds) (simp add: cell that)
  have "for_each [0..<width b] (\<lambda>i. for_each [0..<width b] (\<lambda>j. manhattan_cell b i j)) 0
        = Inr (0 + sum_list (map (\<lambda>i. sum_list (map (?h i) [0..<width b])) [0..<width b]))"
    by (rule for_each_adds) (simp add: row)
  then show ?thesis by (simp add: manhattan_def manhattan_sum_def sum_list_upt)
qed

lemma tile_distance_nonneg: "0 \<le> tile_distance w i j v"
  by (simp add: tile_distance_def)

lemma manhattan_sum_nonneg: "0 \<le> manhattan_sum b"
  unfolding manhattan_sum_def by (intro sum_nonneg) (simp add: tile_distance_nonneg)

lemma manhattan_sum_zero_iff:
  "manhattan_sum b = 0 \<longleftrightarrow>
     (\<forall>i<width b. \<forall>j<width b. tiles b ! i ! j \<noteq> 0 \<longrightarrow> tile_distance (width b) i j (tiles b ! i ! j) = 0)"
proof -
  let ?h = "\<lambda>i j. if tiles b ! i ! j \<noteq> 0 then tile_distance (width b) i j (tiles b ! i ! j) else 0"
  have h: "0 \<le> ?h i j" for i j by (simp add: tile_distance_nonneg)
  have "manhattan_sum b = 0 \<longleftrightarrow> (\<forall>i\<in>{..<width b}. (\<Sum>j<width b. ?h i j) = 0)"
    unfolding manhattan_sum_def by (rule sum_nonneg_eq_0_iff) (simp_all add: sum_nonneg h)
  also have "\<dots> \<longleftrightarrow> (\<forall>i\<in>{..<width b}. \<forall>j\<in>{..<width b}. ?h i j = 0)"
    using h by (simp add: sum_nonneg_eq_0_iff)
  finally show ?thesis by auto
qed

lemma tile_distance_zero_iff:
  assumes "j < w"
  shows "tile_distance w i j v = 0 \<longleftrightarrow> v = int (i * w + j) + 1"
proof
  assume "tile_distance w i j v = 0"
  then have d: "(v - 1) div int w = int i" and m: "(v - 1) mod int w = int j"
    by (simp_all add: tile_distance_def)
  have "v - 1 = (v - 1) div int w * int w + (v - 1) mod int w" by simp
  then show "v = int (i * w + j) + 1" by (simp add: d m)
next
  assume v: "v = int (i * w + j) + 1"
  have "(int i * int w + int j) div int w = int i" "(int i * int w + int j) mod int w = int j"
    using assms by simp_all
  then show "tile_distance w i j v = 0" by (simp add: tile_distance_def v)
qed

lemma nth_concat_square:
  assumes "\<forall>r\<in>set t. length r = w" "i < length t" "j < w"
  shows "concat t ! (i * w + j) = t ! i ! j"
  using assms
proof (induction t arbitrary: i)
  case Nil then show ?case by simp
next
  case (Cons r t)
  show ?case
  proof (cases i)
    case 0
    with Cons.prems show ?thesis by (simp add: nth_append)
  next
    case (Suc k)
    with Cons.prems have "concat t ! (k * w + j) = t ! k ! j" by (intro Cons.IH) simp_all
    moreover have "length r = w" using Cons.prems by simp
    ultimately show ?thesis using Suc by (simp add: nth_append)
  qed
qed

lemma length_concat_square:
  "\<forall>r\<in>set t. length r = w \<Longrightarrow> length (concat t) = length t * w"
  by (induction t) simp_all

lemma manhattan_zero_flat:
  assumes sq: "square (tiles b)"
  shows "manhattan_sum b = 0 \<longleftrightarrow> (\<forall>k<(width b)\<^sup>2. iter b ! k \<noteq> 0 \<longrightarrow> iter b ! k = int k + 1)"
proof -
  let ?w = "width b" and ?t = "tiles b"
  have rows: "\<forall>r\<in>set ?t. length r = ?w" using sq by (simp add: square_def width_def)
  have cell: "iter b ! (i * ?w + j) = ?t ! i ! j" if "i < ?w" "j < ?w" for i j
    unfolding iter_def using rows that by (intro nth_concat_square) (simp_all add: width_def)
  have "manhattan_sum b = 0 \<longleftrightarrow>
        (\<forall>i<?w. \<forall>j<?w. iter b ! (i * ?w + j) \<noteq> 0 \<longrightarrow> iter b ! (i * ?w + j) = int (i * ?w + j) + 1)"
    by (simp add: manhattan_sum_zero_iff tile_distance_zero_iff cell)
  also have "\<dots> \<longleftrightarrow> (\<forall>k<?w\<^sup>2. iter b ! k \<noteq> 0 \<longrightarrow> iter b ! k = int k + 1)"
  proof
    assume a: "\<forall>i<?w. \<forall>j<?w. iter b ! (i * ?w + j) \<noteq> 0 \<longrightarrow> iter b ! (i * ?w + j) = int (i * ?w + j) + 1"
    show "\<forall>k<?w\<^sup>2. iter b ! k \<noteq> 0 \<longrightarrow> iter b ! k = int k + 1"
    proof (intro allI impI)
      fix k assume k: "k < ?w\<^sup>2" and nz: "iter b ! k \<noteq> 0"
      from k have w: "0 < ?w" by (cases "?w") simp_all
      from k have "k div ?w < ?w" by (simp add: power2_eq_square less_mult_imp_div_less)
      moreover have "k mod ?w < ?w" using w by simp
      moreover have "k div ?w * ?w + k mod ?w = k" by simp
      ultimately show "iter b ! k = int k + 1" using a nz by metis
    qed
  next
    assume a: "\<forall>k<?w\<^sup>2. iter b ! k \<noteq> 0 \<longrightarrow> iter b ! k = int k + 1"
    show "\<forall>i<?w. \<forall>j<?w. iter b ! (i * ?w + j) \<noteq> 0 \<longrightarrow> iter b ! (i * ?w + j) = int (i * ?w + j) + 1"
    proof (intro allI impI)
      fix i j assume i: "i < ?w" and j: "j < ?w" and nz: "iter b ! (i * ?w + j) \<noteq> 0"
      from i have "Suc i * ?w \<le> ?w * ?w" by (intro mult_le_mono1) simp
      with j have "i * ?w + j < ?w\<^sup>2" by (simp add: power2_eq_square)
      with a nz show "iter b ! (i * ?w + j) = int (i * ?w + j) + 1" by blast
    qed
  qed
  finally show ?thesis .
qed

lemma perm_flat_solved:
  assumes perm: "mset xs = mset (map int [0..<n])" and n: "0 < n"
  shows "(\<forall>k<n. xs ! k \<noteq> 0 \<longrightarrow> xs ! k = int k + 1) \<longleftrightarrow> xs = map int [1..<n] @ [0]"
proof
  assume xs: "xs = map int [1..<n] @ [0]"
  show "\<forall>k<n. xs ! k \<noteq> 0 \<longrightarrow> xs ! k = int k + 1"
  proof (intro allI impI)
    fix k assume k: "k < n" and nz: "xs ! k \<noteq> 0"
    have "k < n - 1"
    proof (rule ccontr)
      assume "\<not> k < n - 1"
      with k have "k = n - 1" by simp
      then have "xs ! k = 0" by (simp add: xs nth_append)
      with nz show False by simp
    qed
    then show "xs ! k = int k + 1" by (simp add: xs nth_append)
  qed
next
  assume a: "\<forall>k<n. xs ! k \<noteq> 0 \<longrightarrow> xs ! k = int k + 1"
  have len: "length xs = n" using perm by (metis length_map length_upt mset_eq_length minus_nat.diff_0)
  have set: "set xs = int ` {0..<n}" using perm by (metis mset_eq_setD set_map set_upt)
  have dist: "distinct xs"
    using perm by (metis distinct_map distinct_upt inj_on_of_nat mset_eq_imp_distinct_iff)
  have last0: "xs ! (n - 1) = 0"
  proof (rule ccontr)
    assume nz: "xs ! (n - 1) \<noteq> 0"
    have "n - 1 < n" using n by simp
    with a nz have "xs ! (n - 1) = int (n - 1) + 1" by blast
    then have "xs ! (n - 1) = int n" using n by (simp add: of_nat_diff)
    moreover have "xs ! (n - 1) \<in> set xs" using n len by simp
    ultimately show False using set by auto
  qed
  show "xs = map int [1..<n] @ [0]"
  proof (rule nth_equalityI)
    show "length xs = length (map int [1..<n] @ [0])" using len n by simp
  next
    fix k assume "k < length xs"
    then have k: "k < n" by (simp add: len)
    show "xs ! k = (map int [1..<n] @ [0]) ! k"
    proof (cases "k = n - 1")
      case True
      then show ?thesis using last0 by (simp add: nth_append)
    next
      case False
      with k have k': "k < n - 1" by simp
      have "xs ! k \<noteq> xs ! (n - 1)"
        using dist k n False len by (simp add: nth_eq_iff_index_eq)
      then have "xs ! k = int k + 1" using a k last0 by simp
      then show ?thesis using k' by (simp add: nth_append)
    qed
  qed
qed

text \<open>
  Claim C3, amended. For every square board of width at least 2 whose tiles are a
  permutation of \<open>0..width\<^sup>2 - 1\<close>, \<open>manhattan\<close> returns the sum of the tiles'
  Manhattan distances to their goal cells; the value is not negative, and it is 0 exactly
  when \<open>is_solved\<close> holds.
\<close>

theorem manhattan_heuristic:
  assumes "square (tiles b)" "perm_tiles (tiles b)" "2 \<le> width b"
  shows "manhattan b = Inr (manhattan_sum b) \<and> 0 \<le> manhattan_sum b
         \<and> (manhattan_sum b = 0 \<longleftrightarrow> is_solved b)"
proof -
  have ok: "rows_ok (tiles b)" using assms(1) by (simp add: square_def rows_ok_def)
  have w: "0 < (width b)\<^sup>2" using assms(3) by simp
  have p: "mset (iter b) = mset (map int [0..<(width b)\<^sup>2])"
    using assms(2) by (simp add: perm_tiles_def iter_def width_def)
  have "manhattan_sum b = 0 \<longleftrightarrow> iter b = solved_flat (width b)"
    unfolding manhattan_zero_flat[OF assms(1)] solved_flat_def by (rule perm_flat_solved[OF p w])
  then have "manhattan_sum b = 0 \<longleftrightarrow> is_solved b"
    by (simp add: is_solved_iff_flat[OF assms(3)])
  then show ?thesis using manhattan_ok[OF ok] manhattan_sum_nonneg by simp
qed

theorem manhattan_heuristic_witness:
  "square [[1, 2], [0, 3]] \<and> perm_tiles [[1, 2], [0, 3]] \<and> 2 \<le> width (Board [[1, 2], [0, 3]] None None)
   \<and> manhattan (Board [[1, 2], [0, 3]] None None) = Inr 1
   \<and> \<not> is_solved (Board [[1, 2], [0, 3]] None None)"
proof -
  let ?b = "Board [[1, 2], [0, 3]] None None"
  have s: "square (tiles ?b)" by (simp add: square_def)
  have p: "perm_tiles (tiles ?b)" by (simp add: perm_tiles_def eval_nat_numeral upt_rec)
  have w: "2 \<le> width ?b" by (simp add: width_def)
  have m: "manhattan ?b = Inr 1" by code_simp
  from manhattan_heuristic[OF s p w] m have "\<not> is_solved ?b" by auto
  with s p w m show ?thesis by simp
qed

text \<open>
  At width 1 the board \<open>[[0]]\<close> is a permutation of \<open>0..0\<close> with heuristic 0, and
  \<open>is_solved\<close> rejects it.
\<close>

theorem manhattan_width_one_counterexample:
  "perm_tiles [[0]] \<and> manhattan (Board [[0]] None None) = Inr 0 \<and> \<not> is_solved (Board [[0]] None None)"
proof -
  have "perm_tiles [[0]]" by (simp add: perm_tiles_def)
  moreover have "manhattan (Board [[0]] None None) = Inr 0 \<and> \<not> is_solved (Board [[0]] None None)" by code_simp
  ultimately show ?thesis by simp
qed

section \<open>The heap keeps its entries\<close>

lemma mset_move_entry:
  assumes "i < length l" "j < length l"
  shows "mset (l[i := l ! j, j := x]) = mset (l[i := x])"
proof (cases "i = j")
  case True then show ?thesis by simp
next
  case False
  then have "l[i := l ! j] ! j = l ! j" by simp
  then show ?thesis using assms False
    by (simp add: mset_update nth_list_update)
qed

lemma siftdown_loop_mset:
  "pos < length heap \<Longrightarrow> siftdown_loop heap newitem startpos pos = Inr h' \<Longrightarrow>
   mset h' = mset (heap[pos := newitem])"
proof (induction heap newitem startpos pos rule: siftdown_loop.induct)
  case (1 heap newitem startpos pos)
  show ?case
  proof (cases "pos > startpos")
    case False
    with "1.prems" show ?thesis by (simp add: siftdown_loop.simps[of heap])
  next
    case True
    let ?pp = "(pos - 1) div 2"
    have pp: "?pp < pos" using True by simp
    then have ppl: "?pp < length heap" using "1.prems"(1) by simp
    show ?thesis
    proof (cases "Board_lt newitem (Inl (heap ! ?pp))")
      case (Inl e)
      with True "1.prems" show ?thesis by (simp add: siftdown_loop.simps[of heap] Let_def)
    next
      case (Inr lt)
      show ?thesis
      proof (cases lt)
        case False
        with Inr True "1.prems" show ?thesis by (simp add: siftdown_loop.simps[of heap] Let_def)
      next
        case lt: True
        from lt Inr True "1.prems"(2)
        have r: "siftdown_loop (heap[pos := heap ! ?pp]) newitem startpos ?pp = Inr h'"
          by (simp add: siftdown_loop.simps[of heap] Let_def)
        have "mset h' = mset (heap[pos := heap ! ?pp, ?pp := newitem])"
          using "1.IH"[OF True refl refl Inr lt _ r] ppl by simp
        also have "\<dots> = mset (heap[pos := newitem])"
          using ppl "1.prems"(1) by (rule mset_move_entry[rotated])
        finally show ?thesis .
      qed
    qed
  qed
qed

lemma smaller_child_range:
  "smaller_child heap endpos childpos = Inr c \<Longrightarrow> childpos < endpos \<Longrightarrow> c < endpos \<and> childpos \<le> c"
  by (auto simp: smaller_child_def Let_def bind_err_def split: if_splits sum.splits)

lemma siftup_loop_props:
  "pos < length heap \<Longrightarrow> endpos = length heap \<Longrightarrow> siftup_loop heap endpos pos = Inr (h', p') \<Longrightarrow>
   p' < endpos \<and> length h' = length heap \<and> set h' \<subseteq> set heap
   \<and> (\<forall>x. mset (h'[p' := x]) = mset (heap[pos := x]))"
proof (induction heap endpos pos rule: siftup_loop.induct)
  case (1 heap endpos pos)
  let ?cp = "2 * pos + 1"
  show ?case
  proof (cases "?cp < endpos")
    case False
    with "1.prems" show ?thesis by (simp add: siftup_loop.simps[of heap] Let_def)
  next
    case True
    show ?thesis
    proof (cases "smaller_child heap endpos ?cp")
      case (Inl e)
      with True "1.prems" show ?thesis by (simp add: siftup_loop.simps[of heap] Let_def)
    next
      case (Inr c)
      from smaller_child_range[OF Inr True] have c: "c < endpos" "?cp \<le> c" by simp_all
      let ?h = "heap[pos := heap ! c]"
      from Inr True "1.prems"(3) have r: "siftup_loop ?h endpos c = Inr (h', p')"
        by (simp add: siftup_loop.simps[of heap] Let_def)
      have "c < length ?h" "endpos = length ?h" using c "1.prems"(2) by simp_all
      from "1.IH"[OF refl True Inr this r]
      have ih: "p' < endpos" "length h' = length ?h" "set h' \<subseteq> set ?h"
        "\<And>x. mset (h'[p' := x]) = mset (?h[c := x])" by simp_all
      have "heap ! c \<in> set heap" using c "1.prems"(2) by simp
      then have "set ?h \<subseteq> set heap" using set_update_subset_insert[of heap pos "heap ! c"] by auto
      moreover have "mset (?h[c := x]) = mset (heap[pos := x])" for x
        using "1.prems"(1,2) c by (intro mset_move_entry) simp_all
      ultimately show ?thesis using ih by auto
    qed
  qed
qed

lemma siftdown_mset: "siftdown heap startpos pos = Inr h' \<Longrightarrow> mset h' = mset heap"
  using siftdown_loop_mset[of pos heap "heap ! pos" startpos h']
  by (simp add: siftdown_def split: if_splits)

lemma siftup_mset: "siftup heap pos = Inr h' \<Longrightarrow> mset h' = mset heap"
proof -
  assume a: "siftup heap pos = Inr h'"
  then have p: "pos < length heap" by (simp add: siftup_def split: if_splits)
  with a obtain h1 p1 where l: "siftup_loop heap (length heap) pos = Inr (h1, p1)"
    and d: "siftdown (h1[p1 := heap ! pos]) pos p1 = Inr h'"
    by (auto simp: siftup_def Let_def bind_err_def split: sum.splits)
  from siftup_loop_props[OF p refl l] have "mset (h1[p1 := heap ! pos]) = mset (heap[pos := heap ! pos])"
    by blast
  with siftdown_mset[OF d] show ?thesis by simp
qed

lemma heappush_mset: "heappush heap item = Inr h' \<Longrightarrow> mset h' = add_mset item (mset heap)"
  using siftdown_mset[of "heap @ [item]" 0 "length heap" h'] by (simp add: heappush_def Let_def)

lemma heappop_mset: "heappop heap = Inr (item, h') \<Longrightarrow> mset heap = add_mset item (mset h')"
proof -
  assume a: "heappop heap = Inr (item, h')"
  then have ne: "heap \<noteq> []" by (auto simp: heappop_def)
  then have s: "mset heap = add_mset (last heap) (mset (butlast heap))"
    by (metis append_butlast_last_id mset.simps(2) mset_append union_mset_add_mset_right add.right_neutral mset.simps(1))
  show ?thesis
  proof (cases "butlast heap = []")
    case True
    with a ne s show ?thesis by (simp add: heappop_def Let_def)
  next
    case False
    let ?b = "butlast heap"
    from False a ne have i: "item = ?b ! 0" and u: "siftup (?b[0 := last heap]) 0 = Inr h'"
      by (auto simp: heappop_def Let_def bind_err_def split: sum.splits)
    have "0 < length ?b" using False by (cases "butlast heap") simp_all
    then have "add_mset (?b ! 0) (mset (?b[0 := last heap])) = add_mset (last heap) (mset ?b)"
      by (simp add: mset_update)
    with siftup_mset[OF u] s i show ?thesis by simp
  qed
qed

section \<open>The heap operations succeed on boards whose rows are complete\<close>

lemma f_ok: "rows_ok (tiles b) \<Longrightarrow> f b = Inr (g b + manhattan_sum b)"
  by (simp add: f_def manhattan_ok)

lemma Board_lt_ok:
  "rows_ok (tiles a) \<Longrightarrow> rows_ok (tiles b) \<Longrightarrow>
   Board_lt a (Inl b) = Inr (g a + manhattan_sum a < g b + manhattan_sum b)"
  by (simp add: Board_lt_def getattr_f_def f_ok)

lemma siftdown_loop_total:
  "pos < length heap \<Longrightarrow> \<forall>b\<in>set heap. rows_ok (tiles b) \<Longrightarrow> rows_ok (tiles newitem) \<Longrightarrow>
   \<exists>h'. siftdown_loop heap newitem startpos pos = Inr h'"
proof (induction heap newitem startpos pos rule: siftdown_loop.induct)
  case (1 heap newitem startpos pos)
  show ?case
  proof (cases "pos > startpos")
    case False
    then show ?thesis by (simp add: siftdown_loop.simps[of heap])
  next
    case True
    let ?pp = "(pos - 1) div 2"
    let ?lt = "g newitem + manhattan_sum newitem < g (heap ! ?pp) + manhattan_sum (heap ! ?pp)"
    have pp: "?pp < length heap" using True "1.prems"(1) by simp
    then have okp: "rows_ok (tiles (heap ! ?pp))" using "1.prems"(2) by simp
    have lt: "Board_lt newitem (Inl (heap ! ?pp)) = Inr ?lt"
      using "1.prems"(3) okp by (rule Board_lt_ok)
    show ?thesis
    proof (cases ?lt)
      case False
      with lt True show ?thesis by (simp add: siftdown_loop.simps[of heap] Let_def)
    next
      case t: True
      have "\<forall>b\<in>set (heap[pos := heap ! ?pp]). rows_ok (tiles b)"
        using "1.prems"(2) okp set_update_subset_insert[of heap pos "heap ! ?pp"] by auto
      with "1.IH"[OF True refl refl lt t] pp "1.prems"(3)
      have "\<exists>h'. siftdown_loop (heap[pos := heap ! ?pp]) newitem startpos ?pp = Inr h'" by simp
      with lt True t show ?thesis by (simp add: siftdown_loop.simps[of heap] Let_def)
    qed
  qed
qed

lemma siftdown_total:
  "pos < length heap \<Longrightarrow> \<forall>b\<in>set heap. rows_ok (tiles b) \<Longrightarrow> \<exists>h'. siftdown heap startpos pos = Inr h'"
  using siftdown_loop_total[of pos heap "heap ! pos" startpos] by (simp add: siftdown_def)

lemma smaller_child_total:
  "childpos < endpos \<Longrightarrow> endpos = length heap \<Longrightarrow> \<forall>b\<in>set heap. rows_ok (tiles b) \<Longrightarrow>
   \<exists>c. smaller_child heap endpos childpos = Inr c"
  by (simp add: smaller_child_def Let_def Board_lt_ok)

lemma siftup_loop_total:
  "pos < length heap \<Longrightarrow> endpos = length heap \<Longrightarrow> \<forall>b\<in>set heap. rows_ok (tiles b) \<Longrightarrow>
   \<exists>r. siftup_loop heap endpos pos = Inr r"
proof (induction heap endpos pos rule: siftup_loop.induct)
  case (1 heap endpos pos)
  let ?cp = "2 * pos + 1"
  show ?case
  proof (cases "?cp < endpos")
    case False
    then show ?thesis by (simp add: siftup_loop.simps[of heap] Let_def)
  next
    case True
    from smaller_child_total[OF True "1.prems"(2,3)] obtain c where sc: "smaller_child heap endpos ?cp = Inr c"
      by blast
    from smaller_child_range[OF sc True] have c: "c < endpos" by simp
    let ?h = "heap[pos := heap ! c]"
    have "heap ! c \<in> set heap" using c "1.prems"(2) by simp
    then have "\<forall>b\<in>set ?h. rows_ok (tiles b)"
      using "1.prems"(3) set_update_subset_insert[of heap pos "heap ! c"] by auto
    moreover have "c < length ?h" "endpos = length ?h" using c "1.prems"(2) by simp_all
    ultimately have "\<exists>r. siftup_loop ?h endpos c = Inr r"
      using "1.IH"[OF refl True sc] by blast
    with sc True show ?thesis by (simp add: siftup_loop.simps[of heap] Let_def)
  qed
qed

lemma siftup_total:
  assumes "pos < length heap" "\<forall>b\<in>set heap. rows_ok (tiles b)"
  shows "\<exists>h'. siftup heap pos = Inr h'"
proof -
  from siftup_loop_total[OF assms(1) refl assms(2)] obtain h1 p1
    where l: "siftup_loop heap (length heap) pos = Inr (h1, p1)" by force
  from siftup_loop_props[OF assms(1) refl l] have p: "p1 < length h1" "set h1 \<subseteq> set heap" by simp_all
  have "heap ! pos \<in> set heap" using assms(1) by simp
  then have "\<forall>b\<in>set (h1[p1 := heap ! pos]). rows_ok (tiles b)"
    using assms(2) p(2) set_update_subset_insert[of h1 p1 "heap ! pos"] by auto
  moreover have "p1 < length (h1[p1 := heap ! pos])" using p(1) by simp
  ultimately obtain h' where "siftdown (h1[p1 := heap ! pos]) pos p1 = Inr h'"
    using siftdown_total by blast
  with l assms(1) show ?thesis by (simp add: siftup_def Let_def)
qed

lemma heappush_total:
  "\<forall>b\<in>set heap. rows_ok (tiles b) \<Longrightarrow> rows_ok (tiles item) \<Longrightarrow> \<exists>h'. heappush heap item = Inr h'"
  unfolding heappush_def Let_def by (rule siftdown_total) auto

lemma heappop_total:
  assumes "heap \<noteq> []" "\<forall>b\<in>set heap. rows_ok (tiles b)"
  shows "\<exists>item h'. heappop heap = Inr (item, h')"
proof (cases "butlast heap = []")
  case True
  with assms(1) show ?thesis by (simp add: heappop_def Let_def)
next
  case False
  let ?b = "butlast heap"
  have "last heap \<in> set heap" using assms(1) by simp
  moreover have "set ?b \<subseteq> set heap" by (auto dest: in_set_butlastD)
  ultimately have "\<forall>b\<in>set (?b[0 := last heap]). rows_ok (tiles b)"
    using assms(2) set_update_subset_insert[of ?b 0 "last heap"] by auto
  moreover have "0 < length ?b" using False by (cases "butlast heap") simp_all
  then have "0 < length (?b[0 := last heap])" by (simp only: length_list_update)
  ultimately obtain h' where "siftup (?b[0 := last heap]) 0 = Inr h'" using siftup_total by blast
  with False assms(1) show ?thesis by (simp add: heappop_def Let_def)
qed

lemma heappush_single: "heappush [] item = Inr [item]"
  by (simp add: heappush_def siftdown_def siftdown_loop.simps)

lemma heappop_single: "heappop [item] = Inr (item, [])"
  by (simp add: heappop_def)

section \<open>The search\<close>

text \<open>
  Claim C2. When the queue is empty the loop of \<open>solve\<close> ends and the method returns
  None, the value Python returns for a body that ends without a return statement. On the
  unsolvable board \<open>[[2, 1], [3, 0]]\<close> (the solved board with two tiles exchanged) the
  search visits the twelve boards it can reach and returns None: there is no failure
  value and no exception.
\<close>

theorem solve_exhausted_returns_None:
  "solve_loop [] seen = Some (Inr Returned_None)
   \<and> solve (Board [[2, 1], [3, 0]] None None) = Some (Inr Returned_None)"
proof
  show "solve_loop [] seen = Some (Inr Returned_None)" by (simp add: solve_loop.simps)
  show "solve (Board [[2, 1], [3, 0]] None None) = Some (Inr Returned_None)" by code_simp
qed



lemma put_unseen_simp:
  "put_unseen nb (q, seen) =
     (if repr nb \<notin> seen then bind_err (heappush q nb) (\<lambda>q. Inr (q, insert (repr nb) seen))
      else Inr (q, seen))"
  by (simp add: put_unseen_def)

lemma put_unseen_log_simp:
  "put_unseen_log nb (q, seen, pushed) =
     (if repr nb \<notin> seen then
        bind_err (heappush q nb) (\<lambda>q. Inr (q, insert (repr nb) seen, pushed @ [nb]))
      else Inr (q, seen, pushed))"
  by (simp add: put_unseen_log_def)

lemma put_unseen_log_forget:
  "for_each nbs put_unseen_log (q, seen, pushed) = Inr (q', seen', pushed') \<Longrightarrow>
   for_each nbs put_unseen (q, seen) = Inr (q', seen')"
proof (induction nbs arbitrary: q seen pushed)
  case Nil then show ?case by simp
next
  case (Cons nb nbs)
  show ?case
  proof (cases "repr nb \<in> seen")
    case True
    with Cons.prems have "for_each nbs put_unseen_log (q, seen, pushed) = Inr (q', seen', pushed')"
      by (simp add: put_unseen_log_simp)
    from Cons.IH[OF this] True show ?thesis by (simp add: put_unseen_simp)
  next
    case False
    with Cons.prems obtain q1 where h: "heappush q nb = Inr q1"
      and r: "for_each nbs put_unseen_log (q1, insert (repr nb) seen, pushed @ [nb]) = Inr (q', seen', pushed')"
      by (cases "heappush q nb") (simp_all add: put_unseen_log_simp)
    from Cons.IH[OF r] h False show ?thesis by (simp add: put_unseen_simp)
  qed
qed

lemma put_unseen_log_inv:
  "for_each nbs put_unseen_log (q, seen, pushed) = Inr (q', seen', pushed') \<Longrightarrow>
   set q \<subseteq> set pushed \<Longrightarrow> seen = repr ` set pushed \<Longrightarrow> distinct (map repr pushed) \<Longrightarrow>
   set q' \<subseteq> set pushed' \<and> seen' = repr ` set pushed' \<and> distinct (map repr pushed')
   \<and> set pushed \<subseteq> set pushed'"
proof (induction nbs arbitrary: q seen pushed)
  case Nil then show ?case by auto
next
  case (Cons nb nbs)
  show ?case
  proof (cases "repr nb \<in> seen")
    case True
    with Cons.prems(1) have "for_each nbs put_unseen_log (q, seen, pushed) = Inr (q', seen', pushed')"
      by (simp add: put_unseen_log_simp)
    from Cons.IH[OF this Cons.prems(2,3,4)] show ?thesis .
  next
    case False
    with Cons.prems(1) obtain q1 where h: "heappush q nb = Inr q1"
      and r: "for_each nbs put_unseen_log (q1, insert (repr nb) seen, pushed @ [nb]) = Inr (q', seen', pushed')"
      by (cases "heappush q nb") (simp_all add: put_unseen_log_simp)
    from heappush_mset[OF h] have "set q1 = insert nb (set q)" by (metis set_mset_mset set_mset_add_mset_insert)
    then have 1: "set q1 \<subseteq> set (pushed @ [nb])" using Cons.prems(2) by auto
    have 2: "insert (repr nb) seen = repr ` set (pushed @ [nb])" using Cons.prems(3) by simp
    have 3: "distinct (map repr (pushed @ [nb]))" using Cons.prems(3,4) False by simp
    from Cons.IH[OF r 1 2 3] show ?thesis by simp
  qed
qed

lemma search_state_inv:
  "search_state puzzle q seen pushed \<Longrightarrow>
   puzzle \<in> set pushed \<and> set q \<subseteq> set pushed \<and> seen = repr ` set pushed \<and> distinct (map repr pushed)"
proof (induction rule: search_state.induct)
  case (search_start q)
  from heappush_mset[OF search_start] have "set q = {puzzle}"
    by (metis set_mset_mset set_mset_add_mset_insert mset.simps(1) set_mset_empty)
  then show ?case by simp
next
  case (search_iterate q seen pushed node q1 nbs q2 seen2 pushed2)
  from heappop_mset[OF search_iterate(3)] have "set q = insert node (set q1)"
    by (metis set_mset_mset set_mset_add_mset_insert)
  with search_iterate.IH have "set q1 \<subseteq> set pushed" by auto
  from put_unseen_log_inv[OF search_iterate(6) this] search_iterate.IH
  show ?case by auto
qed

lemma search_state_run: "search_state puzzle q seen pushed \<Longrightarrow> solve puzzle = solve_loop q seen"
proof (induction rule: search_state.induct)
  case (search_start q)
  then show ?case by (simp add: solve_def)
next
  case (search_iterate q seen pushed node q1 nbs q2 seen2 pushed2)
  from put_unseen_log_forget[OF search_iterate(6)]
  have "for_each nbs put_unseen (q1, seen) = Inr (q2, seen2)" .
  with search_iterate(2,3,4,5) have "solve_loop q seen = solve_loop q2 seen2"
    by (subst solve_loop.simps) simp
  with search_iterate.IH show ?case by simp
qed

text \<open>
  Claim C7. In every state the search loop reaches, the seen set is the set of the keys
  of the boards pushed into the queue so far, the root among them; no key was pushed
  twice; and the loop goes on from this state as \<open>solve\<close> does. A child whose key is in
  the seen set leaves queue and seen set as they are, whatever its depth and cost.
\<close>

theorem seen_covers_pushed:
  "(search_state puzzle q seen pushed \<longrightarrow>
      puzzle \<in> set pushed \<and> set q \<subseteq> set pushed \<and> (\<forall>n\<in>set pushed. repr n \<in> seen)
      \<and> seen = repr ` set pushed \<and> distinct (map repr pushed)
      \<and> solve puzzle = solve_loop q seen)
   \<and> (\<forall>nb q' seen'. repr nb \<in> seen' \<longrightarrow> put_unseen nb (q', seen') = Inr (q', seen'))"
proof (intro conjI impI allI)
  assume s: "search_state puzzle q seen pushed"
  from search_state_inv[OF s]
  show "puzzle \<in> set pushed" "set q \<subseteq> set pushed" "seen = repr ` set pushed" "distinct (map repr pushed)"
    by simp_all
  then show "\<forall>n\<in>set pushed. repr n \<in> seen" by simp
  from search_state_run[OF s] show "solve puzzle = solve_loop q seen" .
next
  fix nb q' seen' assume "repr nb \<in> seen'"
  then show "put_unseen nb (q', seen') = Inr (q', seen')" by (simp add: put_unseen_def)
qed

theorem seen_covers_pushed_witness:
  "search_state (Board [[1, 2], [0, 3]] None None)
     [Board [[1, 2], [3, 0]] (Some (Board [[1, 2], [0, 3]] None None)) (Some ''Left''),
      Board [[0, 2], [1, 3]] (Some (Board [[1, 2], [0, 3]] None None)) (Some ''Down'')]
     {''1 2 0 3'', ''0 2 1 3'', ''1 2 3 0''}
     [Board [[1, 2], [0, 3]] None None,
      Board [[0, 2], [1, 3]] (Some (Board [[1, 2], [0, 3]] None None)) (Some ''Down''),
      Board [[1, 2], [3, 0]] (Some (Board [[1, 2], [0, 3]] None None)) (Some ''Left'')]
   \<and> {''1 2 0 3'', ''0 2 1 3'', ''1 2 3 0''}
       = repr ` set [Board [[1, 2], [0, 3]] None None,
                     Board [[0, 2], [1, 3]] (Some (Board [[1, 2], [0, 3]] None None)) (Some ''Down''),
                     Board [[1, 2], [3, 0]] (Some (Board [[1, 2], [0, 3]] None None)) (Some ''Left'')]
   \<and> repr (Board [[1, 2], [0, 3]] (Some (Board [[1, 2], [3, 0]] None None)) (Some ''Right'')) \<in> {''1 2 0 3''}
   \<and> put_unseen (Board [[1, 2], [0, 3]] (Some (Board [[1, 2], [3, 0]] None None)) (Some ''Right'')) ([], {''1 2 0 3''})
       = Inr ([], {''1 2 0 3''})"
proof -
  let ?p = "Board [[1, 2], [0, 3]] None None"
  let ?c1 = "Board [[0, 2], [1, 3]] (Some ?p) (Some ''Down'')"
  let ?c2 = "Board [[1, 2], [3, 0]] (Some ?p) (Some ''Left'')"
  let ?seen = "{''1 2 0 3'', ''0 2 1 3'', ''1 2 3 0''}"
  have r: "repr ?p = ''1 2 0 3''" by code_simp
  have s0: "search_state ?p [?p] {''1 2 0 3''} [?p]"
    using search_start[of ?p "[?p]"] by (simp add: heappush_single r)
  have pop: "heappop [?p] = Inr (?p, [])" by (rule heappop_single)
  have ns: "\<not> is_solved ?p" by code_simp
  have nb: "neighbors ?p True = Inr [?c1, ?c2]" by code_simp
  have k1: "repr ?c1 = ''0 2 1 3''" and k2: "repr ?c2 = ''1 2 3 0''" by code_simp+
  have h1: "heappush [] ?c1 = Inr [?c1]" by (rule heappush_single)
  have h2: "heappush [?c1] ?c2 = Inr [?c2, ?c1]" by code_simp
  have fe: "for_each [?c1, ?c2] put_unseen_log ([], {''1 2 0 3''}, [?p]) = Inr ([?c2, ?c1], ?seen, [?p, ?c1, ?c2])"
    by (simp add: put_unseen_log_simp k1 k2 h1 h2 insert_commute)
  have s1: "search_state ?p [?c2, ?c1] ?seen [?p, ?c1, ?c2]"
    by (rule search_iterate[OF s0 _ pop ns nb fe]) simp
  let ?d = "Board [[1, 2], [0, 3]] (Some (Board [[1, 2], [3, 0]] None None)) (Some ''Right'')"
  have rd: "repr ?d \<in> {''1 2 0 3''}" by code_simp
  have rd': "repr ?d = ''1 2 0 3''" by code_simp
  note t = seen_covers_pushed[of ?p "[?c2, ?c1]" ?seen "[?p, ?c1, ?c2]"]
  from t s1 have "?seen = repr ` set [?p, ?c1, ?c2]" by (elim conjE) (simp only:)
  moreover from t rd have "put_unseen ?d ([], {''1 2 0 3''}) = Inr ([], {''1 2 0 3''})" by (elim conjE) (simp only:)
  ultimately show ?thesis using s1 rd by (intro conjI)
qed

section \<open>The search finds the goal\<close>

lemma repr_key_of: "repr b = key_of (tiles b)"
  by (simp add: repr_def iter_def key_of_def)

lemma is_solved_tiles: "is_solved b = solved_tiles (tiles b)"
  by (simp add: is_solved_def solved_tiles_def repr_def iter_def width_def)

lemma reach_tiles_refl: "t \<in> reach_tiles t"
  by (simp add: reach_tiles_def)

lemma reach_tiles_step: "t' \<in> reach_tiles t \<Longrightarrow> tile_step t' t'' \<Longrightarrow> t'' \<in> reach_tiles t"
  by (simp add: reach_tiles_def)

lemma reach_tiles_shape: "t' \<in> reach_tiles t \<Longrightarrow> map length t' = map length t"
  using reach_preserves by (simp add: reach_tiles_def)

lemma reach_tiles_rows_ok: "rows_ok t \<Longrightarrow> t' \<in> reach_tiles t \<Longrightarrow> rows_ok t'"
  using rows_ok_shape[OF reach_tiles_shape] by blast

lemma key_of_inj:
  assumes "t1 \<in> reach_tiles t" "t2 \<in> reach_tiles t" "key_of t1 = key_of t2"
  shows "t1 = t2"
proof -
  have "map length t1 = map length t2" using assms(1,2) by (simp add: reach_tiles_shape)
  moreover have "concat t1 = concat t2" using assms(3) unfolding key_of_def by (rule repr_inj_flat)
  ultimately show ?thesis by (rule concat_shape_inj)
qed

lemma length_row_le_concat: "r \<in> set t \<Longrightarrow> length r \<le> length (concat t)"
  by (induction t) auto

lemma finite_reach_tiles: "finite (reach_tiles t)"
proof -
  let ?S = "set (concat t)" and ?m = "length (concat t)"
  let ?rows = "{r. set r \<subseteq> ?S \<and> length r \<le> ?m}"
  have "reach_tiles t \<subseteq> {u. set u \<subseteq> ?rows \<and> length u \<le> length t}"
  proof
    fix u assume u: "u \<in> reach_tiles t"
    then have "tile_step\<^sup>*\<^sup>* t u" by (simp add: reach_tiles_def)
    from reach_preserves[OF this] have s: "map length u = map length t" and m: "mset (concat u) = mset (concat t)"
      by simp_all
    from s have l: "length u = length t" by (rule map_eq_imp_length_eq)
    from m have se: "set (concat u) = ?S" by (rule mset_eq_setD)
    from m have le: "length (concat u) = ?m" by (rule mset_eq_length)
    have "r \<in> ?rows" if "r \<in> set u" for r
    proof -
      from that have "set r \<subseteq> set (concat u)" by auto
      moreover from that have "length r \<le> length (concat u)" by (rule length_row_le_concat)
      ultimately show ?thesis using se le by simp
    qed
    with l show "u \<in> {u. set u \<subseteq> ?rows \<and> length u \<le> length t}" by auto
  qed
  moreover have "finite ?rows" by (rule finite_lists_length_le) simp
  then have "finite {u. set u \<subseteq> ?rows \<and> length u \<le> length t}" by (rule finite_lists_length_le)
  ultimately show ?thesis by (rule finite_subset)
qed

lemma neighbors_tiles_set:
  assumes "neighbors b rp = Inr nbs"
  shows "tiles ` set nbs = {t'. tile_step (tiles b) t'}"
proof -
  have ok: "rows_ok (tiles b)" using assms by (rule neighbors_Inr_rows_ok)
  from neighbors_ok[OF ok, of rp] assms
  have "nbs = concat (map (\<lambda>p. map (mk_child b rp) (moves_at (tiles b) p)) (blanks (tiles b)))" by simp
  then have "set nbs = (\<Union>p\<in>set (blanks (tiles b)). mk_child b rp ` set (moves_at (tiles b) p))"
    by simp
  then have "tiles ` set nbs = (\<Union>p\<in>set (blanks (tiles b)). fst ` set (moves_at (tiles b) p))"
    by (simp add: image_UN image_image)
  also have "\<dots> = {t'. tile_step (tiles b) t'}" using ok by (auto simp: tile_step_iff)
  finally show ?thesis .
qed

lemma neighbors_child_parent:
  assumes "neighbors b True = Inr nbs" "c \<in> set nbs"
  shows "hd (path c) = hd (path b)"
proof -
  from neighbors_child_cases[OF assms] obtain m where "c = mk_child b True m" by blast
  then have "c = Board (fst m) (Some b) (Some (snd m))" by (simp add: mk_child_def)
  then show ?thesis by (simp add: hd_path_child)
qed

lemma set_heappush: "heappush q nb = Inr q' \<Longrightarrow> set q' = insert nb (set q)"
  using heappush_mset[of q nb q'] by (metis set_mset_mset set_mset_add_mset_insert)

lemma set_heappop: "heappop q = Inr (node, q') \<Longrightarrow> set q = insert node (set q')"
  using heappop_mset[of q node q'] by (metis set_mset_mset set_mset_add_mset_insert)

lemma length_heappop: "heappop q = Inr (node, q') \<Longrightarrow> length q = Suc (length q')"
  using heappop_mset[of q node q'] by (metis size_mset size_add_mset)

lemma put_unseen_loop:
  "for_each nbs put_unseen (q, seen) = Inr (q', seen') \<Longrightarrow>
   seen' = seen \<union> repr ` set nbs \<and> set q \<subseteq> set q' \<and> set q' \<subseteq> set q \<union> set nbs
   \<and> (\<forall>k\<in>seen' - seen. \<exists>n\<in>set q'. n \<in> set nbs \<and> repr n = k)
   \<and> (seen' = seen \<longrightarrow> q' = q)"
proof (induction nbs arbitrary: q seen)
  case Nil then show ?case by auto
next
  case (Cons nb nbs)
  show ?case
  proof (cases "repr nb \<in> seen")
    case True
    with Cons.prems have "for_each nbs put_unseen (q, seen) = Inr (q', seen')"
      by (simp add: put_unseen_simp)
    from Cons.IH[OF this] True show ?thesis by auto
  next
    case False
    with Cons.prems obtain q1 where h: "heappush q nb = Inr q1"
      and r: "for_each nbs put_unseen (q1, insert (repr nb) seen) = Inr (q', seen')"
      by (cases "heappush q nb") (simp_all add: put_unseen_simp)
    note s = set_heappush[OF h]
    from Cons.IH[OF r] have ih:
      "seen' = insert (repr nb) seen \<union> repr ` set nbs" "set q1 \<subseteq> set q'" "set q' \<subseteq> set q1 \<union> set nbs"
      "\<forall>k\<in>seen' - insert (repr nb) seen. \<exists>n\<in>set q'. n \<in> set nbs \<and> repr n = k"
      by blast+
    have 1: "seen' = seen \<union> repr ` set (nb # nbs)" using ih(1) by auto
    have 2: "set q \<subseteq> set q'" using ih(2) s by auto
    have 3: "set q' \<subseteq> set q \<union> set (nb # nbs)" using ih(3) s by auto
    have 4: "\<forall>k\<in>seen' - seen. \<exists>n\<in>set q'. n \<in> set (nb # nbs) \<and> repr n = k"
    proof
      fix k assume k: "k \<in> seen' - seen"
      show "\<exists>n\<in>set q'. n \<in> set (nb # nbs) \<and> repr n = k"
      proof (cases "k = repr nb")
        case True
        moreover have "nb \<in> set q'" using ih(2) s by auto
        ultimately show ?thesis by auto
      next
        case False
        with k ih(4) show ?thesis by auto
      qed
    qed
    have 5: "seen' \<noteq> seen" using ih(1) False by auto
    from 1 2 3 4 5 show ?thesis by blast
  qed
qed

lemma put_unseen_loop_total:
  "\<forall>b\<in>set q. rows_ok (tiles b) \<Longrightarrow> \<forall>b\<in>set nbs. rows_ok (tiles b) \<Longrightarrow>
   \<exists>r. for_each nbs put_unseen (q, seen) = Inr r"
proof (induction nbs arbitrary: q seen)
  case Nil then show ?case by simp
next
  case (Cons nb nbs)
  show ?case
  proof (cases "repr nb \<in> seen")
    case True
    with Cons.IH[of q seen] Cons.prems show ?thesis by (simp add: put_unseen_simp)
  next
    case False
    from Cons.prems obtain q1 where h: "heappush q nb = Inr q1"
      using heappush_total[of q nb] by auto
    have "\<forall>b\<in>set q1. rows_ok (tiles b)" using set_heappush[OF h] Cons.prems by auto
    with Cons.IH[of q1 "insert (repr nb) seen"] Cons.prems h False show ?thesis
      by (simp add: put_unseen_simp)
  qed
qed

lemma search_inv_empty_unsolved:
  assumes inv: "search_inv root [] seen" and t: "t \<in> reach_tiles (tiles root)"
  shows "key_of t \<in> seen \<and> \<not> solved_tiles t"
proof -
  have closed: "\<not> solved_tiles u \<and> (\<forall>u'. tile_step u u' \<longrightarrow> key_of u' \<in> seen)"
    if "u \<in> reach_tiles (tiles root)" "key_of u \<in> seen" for u
    using inv that unfolding search_inv_def by auto
  from t have "tile_step\<^sup>*\<^sup>* (tiles root) t" by (simp add: reach_tiles_def)
  then have "t \<in> reach_tiles (tiles root) \<and> key_of t \<in> seen"
  proof (induction rule: rtranclp_induct)
    case base
    show ?case using inv by (simp add: search_inv_def reach_tiles_refl)
  next
    case (step y z)
    then have "z \<in> reach_tiles (tiles root)" using reach_tiles_step by blast
    moreover have "key_of z \<in> seen" using closed[of y] step by blast
    ultimately show ?case by simp
  qed
  then show ?thesis using closed[of t] by blast
qed

lemma search_inv_step:
  assumes inv: "search_inv root q seen"
      and pop: "heappop q = Inr (node, q1)" and ns: "\<not> is_solved node"
      and nb: "neighbors node True = Inr nbs"
      and fe: "for_each nbs put_unseen (q1, seen) = Inr (q2, seen2)"
  shows "search_inv root q2 seen2"
proof -
  let ?R = "reach_tiles (tiles root)"
  note sq = set_heappop[OF pop]
  from put_unseen_loop[OF fe] have
    s2: "seen2 = seen \<union> repr ` set nbs" and q12: "set q1 \<subseteq> set q2" and q2: "set q2 \<subseteq> set q1 \<union> set nbs"
    and new: "\<forall>k\<in>seen2 - seen. \<exists>n\<in>set q2. n \<in> set nbs \<and> repr n = k"
    by blast+
  from inv have a: "\<And>n. n \<in> set q \<Longrightarrow> tiles n \<in> ?R \<and> hd (path n) = root"
    and b: "key_of (tiles root) \<in> seen" and c: "seen \<subseteq> key_of ` ?R"
    and d: "\<And>t. t \<in> ?R \<Longrightarrow> key_of t \<in> seen \<Longrightarrow>
            (\<exists>n\<in>set q. tiles n = t) \<or> (\<not> solved_tiles t \<and> (\<forall>t'. tile_step t t' \<longrightarrow> key_of t' \<in> seen))"
    unfolding search_inv_def by blast+
  have node: "tiles node \<in> ?R" "hd (path node) = root" using a[of node] sq by simp_all
  have child: "tiles c \<in> ?R \<and> hd (path c) = root" if "c \<in> set nbs" for c
  proof -
    have "tile_step (tiles node) (tiles c)" using nb that by (rule neighbors_tile_step)
    then have "tiles c \<in> ?R" using node(1) reach_tiles_step by blast
    moreover have "hd (path c) = root" using neighbors_child_parent[OF nb that] node(2) by simp
    ultimately show ?thesis by simp
  qed
  have succ: "key_of t' \<in> seen2" if "tile_step (tiles node) t'" for t'
  proof -
    from that neighbors_tiles_set[OF nb] have "t' \<in> tiles ` set nbs" by simp
    then obtain c where "c \<in> set nbs" "tiles c = t'" by (auto simp: image_iff)
    then show ?thesis using s2 by (auto simp: repr_key_of)
  qed
  have a': "\<forall>n\<in>set q2. tiles n \<in> ?R \<and> hd (path n) = root"
  proof
    fix n assume "n \<in> set q2"
    with q2 have "n \<in> set q1 \<or> n \<in> set nbs" by auto
    then show "tiles n \<in> ?R \<and> hd (path n) = root" using a[of n] sq child[of n] by auto
  qed
  have b': "key_of (tiles root) \<in> seen2" using b s2 by simp
  have c': "seen2 \<subseteq> key_of ` ?R"
  proof
    fix k assume "k \<in> seen2"
    with s2 have "k \<in> seen \<or> (\<exists>c\<in>set nbs. k = repr c)" by auto
    then show "k \<in> key_of ` ?R" using c child by (auto simp: repr_key_of)
  qed
  have d': "\<forall>t\<in>?R. key_of t \<in> seen2 \<longrightarrow>
            (\<exists>n\<in>set q2. tiles n = t) \<or> (\<not> solved_tiles t \<and> (\<forall>t'. tile_step t t' \<longrightarrow> key_of t' \<in> seen2))"
  proof (intro ballI impI)
    fix t assume t: "t \<in> ?R" and k: "key_of t \<in> seen2"
    show "(\<exists>n\<in>set q2. tiles n = t) \<or> (\<not> solved_tiles t \<and> (\<forall>t'. tile_step t t' \<longrightarrow> key_of t' \<in> seen2))"
    proof (cases "key_of t \<in> seen")
      case False
      with k new obtain n where n: "n \<in> set q2" "n \<in> set nbs" "repr n = key_of t" by blast
      from child[OF n(2)] have "tiles n \<in> ?R" by simp
      from key_of_inj[OF this t] n(3) have "tiles n = t" by (simp add: repr_key_of)
      with n(1) show ?thesis by blast
    next
      case True
      from d[OF t True] show ?thesis
      proof
        assume "\<exists>n\<in>set q. tiles n = t"
        then obtain n where n: "n \<in> set q" "tiles n = t" by blast
        show ?thesis
        proof (cases "n \<in> set q1")
          case True
          with q12 n(2) show ?thesis by blast
        next
          case False
          with n(1) sq have "n = node" by auto
          with n(2) ns have "\<not> solved_tiles t" by (simp add: is_solved_tiles)
          moreover have "\<forall>t'. tile_step t t' \<longrightarrow> key_of t' \<in> seen2"
            using succ n(2) \<open>n = node\<close> by blast
          ultimately show ?thesis by blast
        qed
      next
        assume "\<not> solved_tiles t \<and> (\<forall>t'. tile_step t t' \<longrightarrow> key_of t' \<in> seen)"
        then show ?thesis using s2 by blast
      qed
    qed
  qed
  from a' b' c' d' show ?thesis unfolding search_inv_def by blast
qed

lemma search_inv_rows_ok:
  assumes "search_inv root q seen" "rows_ok (tiles root)"
  shows "\<forall>n\<in>set q. rows_ok (tiles n)"
  using assms reach_tiles_rows_ok unfolding search_inv_def by blast

lemma solve_loop_finds:
  assumes ok: "rows_ok (tiles root)" and goal: "\<exists>t\<in>reach_tiles (tiles root). solved_tiles t"
  shows "search_inv root (fst s) (snd s) \<Longrightarrow>
         \<exists>n. solve_loop (fst s) (snd s) = Some (Inr (Returned (path n))) \<and> hd (path n) = root \<and> is_solved n
             \<and> tiles n \<in> reach_tiles (tiles root)"
proof (induction s rule: wf_induct_rule[OF wf_measures[of
        "[\<lambda>s. card (key_of ` reach_tiles (tiles root) - snd s), \<lambda>s. length (fst s)]"]])
  case (1 s)
  let ?K = "key_of ` reach_tiles (tiles root)"
  obtain q seen where s: "s = (q, seen)" by (cases s)
  from "1.prems" s have inv: "search_inv root q seen" by simp
  have ne: "q \<noteq> []"
  proof
    assume "q = []"
    with inv goal search_inv_empty_unsolved[of root seen] show False by blast
  qed
  have okq: "\<forall>n\<in>set q. rows_ok (tiles n)" using inv ok by (rule search_inv_rows_ok)
  from heappop_total[OF ne okq] obtain node q1 where pop: "heappop q = Inr (node, q1)" by blast
  note sq = set_heappop[OF pop]
  from inv sq have node: "tiles node \<in> reach_tiles (tiles root)" "hd (path node) = root"
    unfolding search_inv_def by auto
  show ?case
  proof (cases "is_solved node")
    case True
    with ne pop have "solve_loop q seen = Some (Inr (Returned (path node)))"
      by (subst solve_loop.simps) simp
    with True node s show ?thesis by auto
  next
    case False
    have okn: "rows_ok (tiles node)" using okq sq by simp
    from neighbors_ok[OF okn, of True] obtain nbs where nb: "neighbors node True = Inr nbs" by blast
    have oknbs: "\<forall>c\<in>set nbs. rows_ok (tiles c)"
    proof
      fix c assume "c \<in> set nbs"
      with nb have "tile_step (tiles node) (tiles c)" by (rule neighbors_tile_step)
      then show "rows_ok (tiles c)" by (rule tile_step_preserves(3))
    qed
    have okq1: "\<forall>n\<in>set q1. rows_ok (tiles n)" using okq sq by simp
    from put_unseen_loop_total[OF okq1 oknbs, of seen] obtain q2 seen2
      where fe: "for_each nbs put_unseen (q1, seen) = Inr (q2, seen2)" by force
    have inv2: "search_inv root q2 seen2" using inv pop False nb fe by (rule search_inv_step)
    from put_unseen_loop[OF fe] have sub: "seen \<subseteq> seen2" and same: "seen2 = seen \<longrightarrow> q2 = q1" by blast+
    have less: "((q2, seen2), s) \<in> measures
        [\<lambda>s. card (?K - snd s), \<lambda>s. length (fst s)]"
    proof (cases "seen2 = seen")
      case True
      with same have "q2 = q1" by simp
      with True length_heappop[OF pop] s show ?thesis by simp
    next
      case False
      with sub obtain k where k: "k \<in> seen2" "k \<notin> seen" by blast
      from inv2 have "seen2 \<subseteq> ?K" by (simp add: search_inv_def)
      with k have "k \<in> ?K - seen" "k \<notin> ?K - seen2" by auto
      moreover have "?K - seen2 \<subseteq> ?K - seen" using sub by auto
      ultimately have "?K - seen2 \<subset> ?K - seen" by blast
      moreover have "finite (?K - seen)" using finite_reach_tiles by simp
      ultimately have "card (?K - seen2) < card (?K - seen)" by (intro psubset_card_mono)
      then show ?thesis using s by simp
    qed
    from "1.IH"[OF less] inv2 obtain n where
      n: "solve_loop q2 seen2 = Some (Inr (Returned (path n)))" "hd (path n) = root" "is_solved n"
         "tiles n \<in> reach_tiles (tiles root)"
      by auto
    from ne pop False nb fe have "solve_loop q seen = solve_loop q2 seen2"
      by (subst solve_loop.simps) simp
    with n s show ?thesis by auto
  qed
qed

lemma search_inv_start:
  assumes "parent root = None"
  shows "search_inv root [root] {repr root}"
  unfolding search_inv_def
proof (intro conjI ballI impI)
  fix n assume "n \<in> set [root]"
  then show "tiles n \<in> reach_tiles (tiles root)" "hd (path n) = root"
    using assms by (simp_all add: reach_tiles_refl hd_path_root)
next
  show "key_of (tiles root) \<in> {repr root}" by (simp add: repr_key_of)
  show "{repr root} \<subseteq> key_of ` reach_tiles (tiles root)"
    using reach_tiles_refl[of "tiles root"] by (auto simp: repr_key_of)
next
  fix t assume "t \<in> reach_tiles (tiles root)" "key_of t \<in> {repr root}"
  then have "t = tiles root" using key_of_inj[OF _ reach_tiles_refl] by (simp add: repr_key_of)
  then show "(\<exists>n\<in>set [root]. tiles n = t)
      \<or> (\<not> solved_tiles t \<and> (\<forall>t'. tile_step t t' \<longrightarrow> key_of t' \<in> {repr root}))" by simp
qed

lemma join_space_no_leading_space:
  assumes "word_list ws"
  shows "join_space ws \<noteq> CHR '' '' # s"
proof (cases ws)
  case Nil then show ?thesis by simp
next
  case (Cons w ws')
  with assms have w: "w \<noteq> []" "CHR '' '' \<notin> set w" by (simp_all add: word_list_def)
  then obtain c cs where c: "w = c # cs" "c \<noteq> CHR '' ''" by (cases w) auto
  show ?thesis
  proof (cases ws')
    case Nil with Cons c show ?thesis by simp
  next
    case (Cons v vs) with \<open>ws = w # ws'\<close> c show ?thesis by simp
  qed
qed

lemma is_solved_width: "is_solved b \<Longrightarrow> 2 \<le> width b"
proof (rule ccontr)
  assume s: "is_solved b" and "\<not> 2 \<le> width b"
  then have "width b = 0 \<or> width b = 1" by auto
  then have "[1..<(width b)\<^sup>2] = []" by auto
  then have "join_space (map str (map int [1..<(width b)\<^sup>2])) @ '' 0'' = CHR '' '' # ''0''"
    by (simp only: list.map join_space.simps append_Nil)
  with s have "join_space (map str (iter b)) = CHR '' '' # ''0''"
    by (simp only: is_solved_def Let_def repr_def)
  with join_space_no_leading_space[OF word_list_str] show False by blast
qed

lemma is_solved_flat: "is_solved b \<Longrightarrow> iter b = solved_flat (width b)"
  using is_solved_iff_flat[OF is_solved_width] by blast

text \<open>
  Claim C1. For every solvable initial board (a board without parent), \<open>solve\<close> ends
  and returns a path: it starts with the initial board, and its last board is accepted by
  \<open>is_solved\<close>, that is, its flattened tiles are \<open>1, \<dots>, width\<^sup>2 - 1, 0\<close> and its key
  is the key of the solved board of that width.
\<close>

theorem solve_finds_goal:
  assumes root: "parent puzzle = None" and sol: "solvable puzzle"
  shows "\<exists>p. solve puzzle = Some (Inr (Returned p)) \<and> p \<noteq> [] \<and> hd p = puzzle
             \<and> is_solved (last p)
             \<and> iter (last p) = map int [1..<(width puzzle)\<^sup>2] @ [0]
             \<and> repr (last p) = repr (Board (make_goal (int (width puzzle))) None None)"
proof -
  have "\<exists>n. solve puzzle = Some (Inr (Returned (path n))) \<and> hd (path n) = puzzle \<and> is_solved n
           \<and> tiles n \<in> reach_tiles (tiles puzzle)"
  proof (cases "is_solved puzzle")
    case True
    have "solve puzzle = solve_loop [puzzle] {repr puzzle}" by (simp add: solve_def heappush_single)
    also have "\<dots> = Some (Inr (Returned (path puzzle)))"
      using True by (subst solve_loop.simps) (simp add: heappop_single)
    finally show ?thesis using True root by (auto simp: hd_path_root reach_tiles_refl)
  next
    case False
    from sol obtain b where b: "reachable puzzle b" "is_solved b" by (auto elim: solvable.cases)
    from reachable_tile_steps[OF b(1)] have r: "tile_step\<^sup>*\<^sup>* (tiles puzzle) (tiles b)" .
    have g: "\<exists>t\<in>reach_tiles (tiles puzzle). solved_tiles t"
      using r b(2) by (auto simp: reach_tiles_def is_solved_tiles)
    have "tiles puzzle \<noteq> tiles b" using False b(2) by (auto simp: is_solved_tiles)
    with r obtain u where "tile_step (tiles puzzle) u" by (auto elim: converse_rtranclpE)
    then have ok: "rows_ok (tiles puzzle)" by (simp add: tile_step_iff)
    from solve_loop_finds[OF ok g, of "([puzzle], {repr puzzle})"] search_inv_start[OF root]
    show ?thesis by (simp add: solve_def heappush_single)
  qed
  then obtain n where n: "solve puzzle = Some (Inr (Returned (path n)))" "hd (path n) = puzzle" "is_solved n"
    "tiles n \<in> reach_tiles (tiles puzzle)" by blast
  from reach_tiles_shape[OF n(4)] have "length (tiles n) = length (tiles puzzle)"
    by (rule map_eq_imp_length_eq)
  then have w: "width n = width puzzle" by (simp add: width_def)
  have f: "iter n = solved_flat (width puzzle)" using is_solved_flat[OF n(3)] w by simp
  have "0 < width puzzle" using is_solved_width[OF n(3)] w by simp
  from concat_make_goal[OF this] f
  have k: "repr n = repr (Board (make_goal (int (width puzzle))) None None)"
    by (simp add: repr_def iter_def)
  from n(1,2,3) f k show ?thesis
    by (intro exI[of _ "path n"]) (simp add: path_nonempty last_path solved_flat_def)
qed

theorem solve_finds_goal_witness:
  "parent (Board [[1, 2], [0, 3]] None None) = None
   \<and> solvable (Board [[1, 2], [0, 3]] None None)
   \<and> solve (Board [[1, 2], [0, 3]] None None)
       = Some (Inr (Returned [Board [[1, 2], [0, 3]] None None,
                              Board [[1, 2], [3, 0]] (Some (Board [[1, 2], [0, 3]] None None)) (Some ''Left'')]))
   \<and> (\<exists>p. solve (Board [[1, 2], [0, 3]] None None) = Some (Inr (Returned p))
          \<and> hd p = Board [[1, 2], [0, 3]] None None \<and> is_solved (last p))"
proof -
  let ?r = "Board [[1, 2], [0, 3]] None None"
  let ?c = "Board [[1, 2], [3, 0]] (Some ?r) (Some ''Left'')"
  have p: "parent ?r = None" by simp
  have n: "neighbors ?r True = Inr [Board [[0, 2], [1, 3]] (Some ?r) (Some ''Down''), ?c]" by code_simp
  have r: "reachable ?r ?c" by (rule reachable_child[OF reachable_root n]) simp
  have "is_solved ?c" by code_simp
  with r have s: "solvable ?r" by (rule solvableI)
  have e: "solve ?r = Some (Inr (Returned [?r, ?c]))" by code_simp
  from solve_finds_goal[OF p s] have "\<exists>p. solve ?r = Some (Inr (Returned p)) \<and> hd p = ?r \<and> is_solved (last p)"
    by blast
  with p s e show ?thesis by (intro conjI)
qed

end
